theory Spec2Isabelle
  imports Main "HOL-Library.Word"
begin

section \<open>The event-delivery client of \<^verbatim>\<open>client.go\<close>\<close>

text \<open>
  The client buffers events in a Store, sends them to a collector over HTTP and retries
  failed sends. This theory embeds \<^verbatim>\<open>send\<close>, \<^verbatim>\<open>sendFailed\<close>, \<^verbatim>\<open>emit\<close>,
  \<^verbatim>\<open>emitBulk\<close>, \<^verbatim>\<open>Flush\<close>, \<^verbatim>\<open>Close\<close>, \<^verbatim>\<open>Queue\<close> and the loop of \<^verbatim>\<open>run\<close>.
  Mutation of the receiver \<^verbatim>\<open>t\<close> is explicit state passing on a record; a Go panic is
  the left injection of a sum; a returned \<^verbatim>\<open>error\<close> is an \<open>err option\<close> (\<open>None\<close> is
  \<^verbatim>\<open>nil\<close>). Calls of \<^verbatim>\<open>log.Printf\<close> have no effect on the state and are left out.
\<close>

subsection \<open>Data\<close>

type_synonym bytes = "8 word list"

datatype go_panic = NilPointerDereference | CloseOfClosedChannel

datatype err = TransportFailure | BadStatus int | StoreFailure | UpdateFailed

text \<open>
  Modelled from the spec: the event package is not part of the source at hand. An event
  is its serialized payload, together with the verdict its \<^verbatim>\<open>Validate()\<close> method gives.
\<close>

record event =
  payload :: bytes
  valid :: bool

text \<open>
  Modelled from the spec: the declaration of \<^verbatim>\<open>StoreEvent\<close> is not part of the source at
  hand. The fields \<^verbatim>\<open>Event\<close>, \<^verbatim>\<open>Attempted\<close>, \<^verbatim>\<open>Attempts\<close> and \<^verbatim>\<open>LastAttempt\<close> are the ones
  \<^verbatim>\<open>client.go\<close> reads and writes; \<open>identity\<close> is the key of the spec's data model.
  \<^verbatim>\<open>Attempts\<close> is compared with the option \<^verbatim>\<open>MaxRetries\<close>, a Go \<^verbatim>\<open>int\<close>: a 64-bit word
  read as two's complement, so that \<^verbatim>\<open>e.Attempts++\<close> wraps around.
\<close>

record StoreEvent =
  identity :: nat
  Event :: bytes
  Attempted :: bool
  Attempts :: "64 word"
  LastAttempt :: nat

text \<open>
  Modelled from the spec: the Store interface and its in-memory implementation are not
  part of the source at hand. The Store holds the entries in insertion order, each under
  its identity. Every operation that returns an \<^verbatim>\<open>error\<close> in \<^verbatim>\<open>client.go\<close> takes a flag
  that says whether the backing resource fails this call; a failed call leaves the Store
  as it was. \<^verbatim>\<open>GetAll\<close> hands out a snapshot: changing a snapshot entry changes the Store
  only through \<^verbatim>\<open>Update\<close>.
\<close>

record MemStore =
  entries :: "StoreEvent list"
  next_id :: nat

definition ids :: "MemStore \<Rightarrow> nat list" where
  "ids s = map identity (entries s)"

text \<open>Modelled from the spec: \<^verbatim>\<open>count()\<close> is the number of entries currently held.\<close>

definition Store_Count :: "MemStore \<Rightarrow> int" where
  "Store_Count s = int (length (entries s))"

text \<open>Modelled from the spec: \<^verbatim>\<open>getAll()\<close> returns every live entry.\<close>

definition Store_GetAll :: "bool \<Rightarrow> MemStore \<Rightarrow> err + StoreEvent list" where
  "Store_GetAll fails s = (if fails then Inl StoreFailure else Inr (entries s))"

text \<open>
  Modelled from the spec: \<^verbatim>\<open>set(event)\<close> creates an entry for a newly admitted event,
  never attempted, under a fresh identity.
\<close>

definition Store_Set :: "bool \<Rightarrow> event \<Rightarrow> MemStore \<Rightarrow> err + MemStore" where
  "Store_Set fails ev s =
     (if fails then Inl StoreFailure
      else Inr (s\<lparr>entries := entries s @
                    [\<lparr>identity = next_id s, Event = payload ev, Attempted = False,
                      Attempts = 0, LastAttempt = 0\<rparr>],
                  next_id := Suc (next_id s)\<rparr>))"

text \<open>
  Modelled from the spec: \<^verbatim>\<open>update\<close> only succeeds for an entry that still exists, and
  replaces the entry of that identity.
\<close>

definition Store_Update :: "bool \<Rightarrow> StoreEvent \<Rightarrow> MemStore \<Rightarrow> err + MemStore" where
  "Store_Update fails e s =
     (if fails \<or> identity e \<notin> set (ids s) then Inl StoreFailure
      else Inr (s\<lparr>entries := map (\<lambda>x. if identity x = identity e then e else x) (entries s)\<rparr>))"

text \<open>
  Modelled from the spec: \<^verbatim>\<open>remove\<close> deletes the entry of that identity; removing an
  identity that is not held is not an error.
\<close>

definition Store_Remove :: "bool \<Rightarrow> StoreEvent \<Rightarrow> MemStore \<Rightarrow> err + MemStore" where
  "Store_Remove fails e s =
     (if fails then Inl StoreFailure
      else Inr (s\<lparr>entries := filter (\<lambda>x. identity x \<noteq> identity e) (entries s)\<rparr>))"

text \<open>
  The options read by \<^verbatim>\<open>client.go\<close>. Their declaration is not part of the source at hand;
  \<^verbatim>\<open>MaxRetries\<close> is a Go \<^verbatim>\<open>int\<close> (see \<open>Attempts\<close>), \<^verbatim>\<open>FlushCount\<close> is only compared
  with \<^verbatim>\<open>Count()\<close>.
\<close>

record Options =
  QueueBuffer :: nat
  FlushCount :: int
  Bulk :: bool
  Strict :: bool
  MaxRetries :: "64 word"
  Debug :: bool

text \<open>
  The struct \<^verbatim>\<open>Client\<close>. The field \<open>httpc\<close> stands for the HTTP client by what went
  through it: the bodies of the requests posted so far, oldest first. \<open>q\<close> is the content
  of the buffered channel \<^verbatim>\<open>q\<close>, and \<open>cl\<close> says whether the channel \<^verbatim>\<open>cl\<close> is closed.
\<close>

record Client =
  options :: Options
  httpc :: "bytes list"
  store :: MemStore
  q :: "event list"
  cl :: bool

text \<open>
  A \<^verbatim>\<open>*resty.Response\<close> is a pointer: \<^verbatim>\<open>nil\<close>, or a response with its status code
  (0 when the HTTP exchange gave no raw response). \<^verbatim>\<open>StatusCode()\<close> reads a field of
  its receiver, so on \<^verbatim>\<open>nil\<close> it panics. \<^verbatim>\<open>Post\<close> returns \<^verbatim>\<open>nil\<close> next to the error
  when the request cannot be built or sent off at all, and a response with status 0 next
  to the error when the HTTP exchange itself fails.
\<close>

datatype response = NilResponse | Response int

fun StatusCode :: "response \<Rightarrow> go_panic + int" where
  "StatusCode NilResponse = Inl NilPointerDereference"
| "StatusCode (Response code) = Inr code"

text \<open>
  What the outside does during one iteration of the loop of \<^verbatim>\<open>run\<close>, or during one
  flush: which Store calls fail, what \<^verbatim>\<open>Post\<close> returns and what \<^verbatim>\<open>time.Now()\<close> reads.
  \<open>post w k body\<close> is the pair \<^verbatim>\<open>(resp, err)\<close> returned for the request with that body made
  for the \<open>k\<close>-th event of the snapshot (the only request of a bulk flush is number 0);
  \<open>now\<close>, \<open>update_fails\<close> and \<open>remove_fails\<close> are indexed by the position in the snapshot
  in the same way.
\<close>

record world =
  set_fails :: bool
  getall_fails :: bool
  post :: "nat \<Rightarrow> bytes \<Rightarrow> response \<times> err option"
  now :: "nat \<Rightarrow> nat"
  update_fails :: "nat \<Rightarrow> bool"
  remove_fails :: "nat \<Rightarrow> bool"

subsection \<open>Creating a client\<close>

text \<open>
  \<^verbatim>\<open>New\<close>: the options as given, a Store from \<^verbatim>\<open>NewMemStore\<close> (modelled from the spec:
  the Store is created empty; the flag says whether its creation fails), an empty queue
  and an open channel \<^verbatim>\<open>cl\<close>. The loop of \<^verbatim>\<open>run\<close> starts on this client.
\<close>

definition New :: "bool \<Rightarrow> Options \<Rightarrow> err + Client" where
  "New store_fails opts =
     (if store_fails then Inl StoreFailure
      else Inr \<lparr>options = opts, httpc = [], store = \<lparr>entries = [], next_id = 0\<rparr>,
                q = [], cl = False\<rparr>)"

subsection \<open>Sending one event\<close>

text \<open>
  \<^verbatim>\<open>send\<close>: the status code of \<^verbatim>\<open>resp\<close> is read first; only then \<^verbatim>\<open>err\<close> is returned.
\<close>

definition send :: "(bytes \<Rightarrow> response \<times> err option) \<Rightarrow> bytes \<Rightarrow> go_panic + err option" where
  "send do_post e =
     (case do_post e of (resp, err) \<Rightarrow>
        (case StatusCode resp of
           Inl p \<Rightarrow> Inl p
         | Inr code \<Rightarrow> if code > 299 then Inr (Some (BadStatus code)) else Inr err))"

subsection \<open>The retry policy\<close>

text \<open>
  \<^verbatim>\<open>sendFailed\<close> writes through the pointer \<^verbatim>\<open>e\<close>: the result carries the event as
  written, next to the returned pair \<^verbatim>\<open>(rm, err)\<close> and the client. \<^verbatim>\<open>sendErr\<close> is only
  logged.
\<close>

definition sendFailed ::
  "world \<Rightarrow> nat \<Rightarrow> StoreEvent \<Rightarrow> err option \<Rightarrow> Client \<Rightarrow> (bool \<times> err option) \<times> StoreEvent \<times> Client" where
  "sendFailed w k e sendErr t =
     (let e' = e\<lparr>Attempted := True, Attempts := Attempts e + 1, LastAttempt := now w k\<rparr> in
      if 0 <s MaxRetries (options t) \<and> MaxRetries (options t) <s Attempts e'
      then ((True, None), e', t)
      else (case Store_Update (update_fails w k) e' (store t) of
              Inl uerr \<Rightarrow> ((False, Some UpdateFailed), e', t)
            | Inr s' \<Rightarrow> ((False, None), e', t\<lparr>store := s'\<rparr>)))"

text \<open>The statement \<^verbatim>\<open>if rm { if err := t.store.Remove(e); err != nil { log } }\<close>.\<close>

definition remove_if :: "world \<Rightarrow> nat \<Rightarrow> bool \<Rightarrow> StoreEvent \<Rightarrow> Client \<Rightarrow> Client" where
  "remove_if w k rm e t =
     (if rm then (case Store_Remove (remove_fails w k) e (store t) of
                    Inl rerr \<Rightarrow> t
                  | Inr s' \<Rightarrow> t\<lparr>store := s'\<rparr>)
      else t)"

subsection \<open>Flushing\<close>

text \<open>The body of the loop of \<^verbatim>\<open>emit\<close>, for the \<open>k\<close>-th event of the snapshot.\<close>

definition emit_event :: "world \<Rightarrow> nat \<Rightarrow> StoreEvent \<Rightarrow> nat \<times> Client \<Rightarrow> go_panic + (nat \<times> Client)" where
  "emit_event w k e s =
     (case s of (i, t) \<Rightarrow>
        (case send (post w k) (Event e) of
           Inl p \<Rightarrow> Inl p
         | Inr serr \<Rightarrow>
             (let t1 = t\<lparr>httpc := httpc t @ [Event e]\<rparr> in
              case serr of
                None \<Rightarrow> Inr (Suc i, remove_if w k True e t1)
              | Some x \<Rightarrow>
                  (case sendFailed w k e serr t1 of
                     ((rm, ferr), e', t2) \<Rightarrow> Inr (i, remove_if w k rm e' t2)))))"

fun emit_loop :: "world \<Rightarrow> nat \<Rightarrow> StoreEvent list \<Rightarrow> nat \<times> Client \<Rightarrow> go_panic + (nat \<times> Client)" where
  "emit_loop w k [] s = Inr s"
| "emit_loop w k (e # es) s =
     (case emit_event w k e s of
        Inl p \<Rightarrow> Inl p
      | Inr s' \<Rightarrow> emit_loop w (Suc k) es s')"

text \<open>\<^verbatim>\<open>bytes.Join\<close>: the slices, with the separator between neighbours.\<close>

fun bytes_Join :: "bytes list \<Rightarrow> bytes \<Rightarrow> bytes" where
  "bytes_Join [] sep = []"
| "bytes_Join [b] sep = b"
| "bytes_Join (b # c # bs) sep = b @ sep @ bytes_Join (c # bs) sep"

text \<open>
  \<^verbatim>\<open>failed := err != nil || resp.StatusCode() > 299\<close>: the status code is read only when
  \<^verbatim>\<open>err\<close> is \<^verbatim>\<open>nil\<close>.
\<close>

definition bulk_failed :: "response \<Rightarrow> err option \<Rightarrow> go_panic + bool" where
  "bulk_failed resp err =
     (if err \<noteq> None then Inr True
      else (case StatusCode resp of Inl p \<Rightarrow> Inl p | Inr code \<Rightarrow> Inr (code > 299)))"

text \<open>
  The block \<^verbatim>\<open>if t.options.Debug { ... if resp.StatusCode() > 299 { log } }\<close>: it only
  logs, but it reads the status code whatever \<^verbatim>\<open>err\<close> is.
\<close>

definition bulk_debug :: "bool \<Rightarrow> response \<Rightarrow> go_panic + unit" where
  "bulk_debug dbg resp =
     (if dbg then (case StatusCode resp of Inl p \<Rightarrow> Inl p | Inr code \<Rightarrow> Inr ()) else Inr ())"

text \<open>
  The body of the second loop of \<^verbatim>\<open>emitBulk\<close>. The \<^verbatim>\<open>err\<close> passed to \<^verbatim>\<open>sendFailed\<close> is
  the one declared inside the loop, which is \<^verbatim>\<open>nil\<close>.
\<close>

definition bulk_event :: "world \<Rightarrow> bool \<Rightarrow> nat \<Rightarrow> StoreEvent \<Rightarrow> nat \<times> Client \<Rightarrow> nat \<times> Client" where
  "bulk_event w failed k e s =
     (case s of (i, t) \<Rightarrow>
        if failed
        then (case sendFailed w k e None t of
                ((rm, ferr), e', t2) \<Rightarrow> (i, remove_if w k rm e' t2))
        else (Suc i, remove_if w k True e t))"

fun bulk_loop :: "world \<Rightarrow> bool \<Rightarrow> nat \<Rightarrow> StoreEvent list \<Rightarrow> nat \<times> Client \<Rightarrow> nat \<times> Client" where
  "bulk_loop w failed k [] s = s"
| "bulk_loop w failed k (e # es) s = bulk_loop w failed (Suc k) es (bulk_event w failed k e s)"

definition emitBulk :: "world \<Rightarrow> Client \<Rightarrow> go_panic + ((nat \<times> err option) \<times> Client)" where
  "emitBulk w t =
     (case Store_GetAll (getall_fails w) (store t) of
        Inl gerr \<Rightarrow> Inr ((0, Some gerr), t)
      | Inr evts \<Rightarrow>
          (let body = bytes_Join (map Event evts) [10] in
           case post w 0 body of (resp, err) \<Rightarrow>
             (let t1 = t\<lparr>httpc := httpc t @ [body]\<rparr> in
              case bulk_failed resp err of
                Inl p \<Rightarrow> Inl p
              | Inr failed \<Rightarrow>
                  (case bulk_debug (Debug (options t)) resp of
                     Inl p \<Rightarrow> Inl p
                   | Inr u \<Rightarrow>
                       (case bulk_loop w failed 0 evts (0, t1) of
                          (i, t2) \<Rightarrow> Inr ((i, None), t2))))))"

definition emit :: "world \<Rightarrow> Client \<Rightarrow> go_panic + ((nat \<times> err option) \<times> Client)" where
  "emit w t =
     (if Store_Count (store t) = 0 then Inr ((0, None), t)
      else if Bulk (options t) then emitBulk w t
      else (case Store_GetAll (getall_fails w) (store t) of
              Inl gerr \<Rightarrow> Inr ((0, Some gerr), t)
            | Inr evts \<Rightarrow>
                (case emit_loop w 0 evts (0, t) of
                   Inl p \<Rightarrow> Inl p
                 | Inr (i, t') \<Rightarrow> Inr ((i, None), t'))))"

text \<open>\<^verbatim>\<open>Flush\<close> runs \<^verbatim>\<open>emit\<close> where it is called and logs what \<^verbatim>\<open>emit\<close> returns.\<close>

definition Flush :: "world \<Rightarrow> Client \<Rightarrow> go_panic + Client" where
  "Flush w t = (case emit w t of Inl p \<Rightarrow> Inl p | Inr (r, t') \<Rightarrow> Inr t')"

subsection \<open>The operations of the producers\<close>

text \<open>\<^verbatim>\<open>Close\<close>: closing a channel that is closed already panics.\<close>

definition Close :: "world \<Rightarrow> Client \<Rightarrow> go_panic + Client" where
  "Close w t = (if cl t then Inl CloseOfClosedChannel else Flush w (t\<lparr>cl := True\<rparr>))"


subsection \<open>The loop of \<^verbatim>\<open>run\<close>\<close>

text \<open>
  The three cases of the \<^verbatim>\<open>select\<close>. \<open>run_iter\<close> is one iteration that takes the given
  case; the flag of the result says whether the loop goes on. A case that is not ready
  (nothing in \<^verbatim>\<open>q\<close>, \<^verbatim>\<open>cl\<close> not closed) is never taken by the \<^verbatim>\<open>select\<close>: the model
  leaves the client as it is.
\<close>

datatype stimulus = Recv | Tick | Closed

fun run_iter :: "world \<Rightarrow> stimulus \<Rightarrow> Client \<Rightarrow> go_panic + (bool \<times> Client)" where
  "run_iter w Recv t =
     (case q t of
        [] \<Rightarrow> Inr (True, t)
      | e # rest \<Rightarrow>
          (let t1 = t\<lparr>q := rest\<rparr> in
           if Strict (options t1) \<and> \<not> valid e then Inr (True, t1)
           else (case Store_Set (set_fails w) e (store t1) of
                   Inl serr \<Rightarrow> Inr (True, t1)
                 | Inr s' \<Rightarrow>
                     (let t2 = t1\<lparr>store := s'\<rparr> in
                      if Store_Count (store t2) \<ge> FlushCount (options t2)
                      then (case Flush w t2 of Inl p \<Rightarrow> Inl p | Inr t3 \<Rightarrow> Inr (True, t3))
                      else Inr (True, t2)))))"
| "run_iter w Tick t = (case Flush w t of Inl p \<Rightarrow> Inl p | Inr t' \<Rightarrow> Inr (True, t'))"
| "run_iter w Closed t = (if cl t then Inr (False, t) else Inr (True, t))"

text \<open>
  The loop, along a schedule: for each iteration, what the outside does and which case
  the \<^verbatim>\<open>select\<close> takes. The loop ends when \<^verbatim>\<open>cl\<close> is taken, or with a panic; when the
  schedule is used up the loop is still waiting.
\<close>

fun run :: "(world \<times> stimulus) list \<Rightarrow> Client \<Rightarrow> go_panic + Client" where
  "run [] t = Inr t"
| "run ((w, s) # rest) t =
     (case run_iter w s t of
        Inl p \<Rightarrow> Inl p
      | Inr (go_on, t') \<Rightarrow> if go_on then run rest t' else Inr t')"

subsection \<open>Notions used in the statements\<close>

text \<open>
  The event as \<^verbatim>\<open>sendFailed\<close> leaves it: attempted, one more attempt, and the time of
  this attempt.
\<close>

definition attempted_at :: "nat \<Rightarrow> StoreEvent \<Rightarrow> StoreEvent" where
  "attempted_at tm e = e\<lparr>Attempted := True, Attempts := Attempts e + 1, LastAttempt := tm\<rparr>"

text \<open>
  The condition under which the retry policy gives up on an event whose send has just
  failed: a positive \<^verbatim>\<open>MaxRetries\<close> that the incremented count exceeds.
\<close>

definition retry_exhausted :: "Options \<Rightarrow> StoreEvent \<Rightarrow> bool" where
  "retry_exhausted opts e = (0 <s MaxRetries opts \<and> MaxRetries opts <s Attempts e + 1)"

text \<open>
  The spec's success criterion for a request: the transport reports no error and the
  status code is at most 299.
\<close>

definition accepted :: "response \<times> err option \<Rightarrow> bool" where
  "accepted r = (case r of (resp, err) \<Rightarrow>
      err = None \<and> (case resp of NilResponse \<Rightarrow> False | Response code \<Rightarrow> code \<le> 299))"

text \<open>
  The positions, in the snapshot that a flush takes of the Store, of the events whose
  delivery the collector confirms during that flush: in bulk mode all of them or none,
  by the answer to the one request; otherwise each by the answer to its own request.
\<close>

definition delivered :: "world \<Rightarrow> Client \<Rightarrow> nat list" where
  "delivered w t =
     (if getall_fails w then []
      else if Bulk (options t)
      then (if accepted (post w 0 (bytes_Join (map Event (entries (store t))) [10]))
            then [0..<length (entries (store t))] else [])
      else filter (\<lambda>j. accepted (post w j (Event (entries (store t) ! j))))
             [0..<length (entries (store t))])"

text \<open>
  The positions of the snapshot whose delivery was confirmed during the flush from \<open>t\<close>
  to \<open>t'\<close> and whose identity the Store no longer holds afterwards.
\<close>

definition removed_by_delivery :: "world \<Rightarrow> Client \<Rightarrow> Client \<Rightarrow> nat list" where
  "removed_by_delivery w t t' =
     filter (\<lambda>j. identity (entries (store t) ! j) \<notin> set (ids (store t'))) (delivered w t)"

text \<open>Every entry of the Store has an attempts count of at most \<^verbatim>\<open>MaxRetries\<close>.\<close>

definition bounded :: "Client \<Rightarrow> bool" where
  "bounded t = (\<forall>x \<in> set (entries (store t)). Attempts x \<le>s MaxRetries (options t))"

text \<open>
  \<open>frame N t t'\<close>: from \<open>t\<close> to \<open>t'\<close> only Store entries with an identity in \<open>N\<close> were
  touched, no identity was added, and every entry that is new respects the retry bound;
  options, queue and \<^verbatim>\<open>cl\<close> are the same.
\<close>

definition frame :: "nat set \<Rightarrow> Client \<Rightarrow> Client \<Rightarrow> bool" where
  "frame N t t' \<longleftrightarrow>
     options t' = options t \<and> q t' = q t \<and> cl t' = cl t \<and>
     next_id (store t') = next_id (store t) \<and>
     (\<forall>x. identity x \<notin> N \<longrightarrow> (x \<in> set (entries (store t')) \<longleftrightarrow> x \<in> set (entries (store t)))) \<and>
     set (ids (store t')) \<subseteq> set (ids (store t)) \<and>
     (distinct (ids (store t)) \<longrightarrow> distinct (ids (store t'))) \<and>
     (\<forall>x \<in> set (entries (store t')). x \<in> set (entries (store t)) \<or>
         (0 <s MaxRetries (options t) \<longrightarrow> Attempts x \<le>s MaxRetries (options t)))"

text \<open>
  The identities held by the Store are pairwise different and all below the next fresh
  one, as \<^verbatim>\<open>set\<close> hands them out.
\<close>

definition fresh_ids :: "Client \<Rightarrow> bool" where
  "fresh_ids t = (distinct (ids (store t)) \<and> (\<forall>n \<in> set (ids (store t)). n < next_id (store t)))"

subsection \<open>Example clients and worlds\<close>

definition opts_example :: Options where
  "opts_example = \<lparr>QueueBuffer = 4, FlushCount = 3, Bulk = False, Strict = True,
                    MaxRetries = 2, Debug = False\<rparr>"

text \<open>A stored event with the given identity and attempts count.\<close>

definition stored :: "nat \<Rightarrow> 64 word \<Rightarrow> StoreEvent" where
  "stored n a = \<lparr>identity = n, Event = [of_nat n], Attempted = (a \<noteq> 0), Attempts = a,
                 LastAttempt = 0\<rparr>"

definition client_with :: "Options \<Rightarrow> StoreEvent list \<Rightarrow> Client" where
  "client_with opts es = \<lparr>options = opts, httpc = [],
                          store = \<lparr>entries = es, next_id = length es\<rparr>, q = [], cl = False\<rparr>"

text \<open>A world in which no Store call fails and every request gets the same answer.\<close>

definition answering :: "response \<times> err option \<Rightarrow> world" where
  "answering r = \<lparr>set_fails = False, getall_fails = False, post = (\<lambda>k body. r),
                  now = (\<lambda>k. 7), update_fails = (\<lambda>k. False), remove_fails = (\<lambda>k. False)\<rparr>"

definition event_example :: "bool \<Rightarrow> event" where
  "event_example v = \<lparr>payload = [42], valid = v\<rparr>"

text \<open>Two stored events in bulk mode: one at the retry bound, one never attempted.\<close>

definition bulk_example :: Client where
  "bulk_example = client_with (opts_example\<lparr>Bulk := True\<rparr>) [stored 0 2, stored 1 0]"

definition set_failing :: "world \<Rightarrow> world" where
  "set_failing w = w\<lparr>set_fails := True\<rparr>"

definition update_failing :: "world \<Rightarrow> world" where
  "update_failing w = w\<lparr>update_fails := (\<lambda>k. True)\<rparr>"

definition remove_failing :: "world \<Rightarrow> world" where
  "remove_failing w = w\<lparr>remove_fails := (\<lambda>k. True)\<rparr>"

section \<open>Auxiliary lemmas\<close>

lemmas model_defs =
  emit_def emitBulk_def emit_event_def bulk_event_def sendFailed_def remove_if_def send_def
  bulk_failed_def bulk_debug_def Flush_def Close_def
  Store_Count_def Store_GetAll_def Store_Set_def Store_Update_def Store_Remove_def ids_def
  retry_exhausted_def attempted_at_def accepted_def delivered_def
  word_sless_alt word_sle_eq Let_def

lemmas example_defs =
  opts_example_def stored_def client_with_def answering_def

lemma remove_if_fields [simp]:
  "options (remove_if w k rm e t) = options t"
  "httpc (remove_if w k rm e t) = httpc t"
  "q (remove_if w k rm e t) = q t"
  "cl (remove_if w k rm e t) = cl t"
  by (simp_all add: remove_if_def Store_Remove_def)

lemma remove_if_entries:
  "entries (store (remove_if w k rm e t)) =
     (if rm \<and> \<not> remove_fails w k then filter (\<lambda>x. identity x \<noteq> identity e) (entries (store t))
      else entries (store t))"
  by (simp add: remove_if_def Store_Remove_def)

lemma remove_if_next_id [simp]:
  "next_id (store (remove_if w k rm e t)) = next_id (store t)"
  by (simp add: remove_if_def Store_Remove_def)

lemma sendFailed_eq:
  "sendFailed w k e se t =
     (if retry_exhausted (options t) e then ((True, None), attempted_at (now w k) e, t)
      else if update_fails w k \<or> identity e \<notin> set (ids (store t))
      then ((False, Some UpdateFailed), attempted_at (now w k) e, t)
      else ((False, None), attempted_at (now w k) e,
            t\<lparr>store := (store t)\<lparr>entries :=
                 map (\<lambda>x. if identity x = identity e then attempted_at (now w k) e else x)
                   (entries (store t))\<rparr>\<rparr>))"
  by (simp add: sendFailed_def retry_exhausted_def attempted_at_def Store_Update_def Let_def)

lemma send_cases:
  "send p b = (case p b of
       (NilResponse, terr) \<Rightarrow> Inl NilPointerDereference
     | (Response c, terr) \<Rightarrow> if c > 299 then Inr (Some (BadStatus c)) else Inr terr)"
  by (simp add: send_def split: prod.splits response.splits)

lemma frame_refl: "frame N t t"
  by (simp add: frame_def)

lemma frame_httpc: "frame N (t\<lparr>httpc := h\<rparr>) t' \<Longrightarrow> frame N t t'"
  by (simp add: frame_def)

lemma frame_trans: "frame N t t1 \<Longrightarrow> frame M t1 t2 \<Longrightarrow> frame (N \<union> M) t t2"
  unfolding frame_def by (auto; blast)

lemma frame_mono: "frame N t t' \<Longrightarrow> N \<subseteq> M \<Longrightarrow> frame M t t'"
  unfolding frame_def by blast

lemma frame_remove_if: "frame {identity e} t (remove_if w k rm e t)"
  by (auto simp: frame_def remove_if_entries ids_def distinct_map_filter)

lemma attempted_at_identity [simp]: "identity (attempted_at tm e) = identity e"
  by (simp add: attempted_at_def)

lemma attempted_at_Attempts [simp]: "Attempts (attempted_at tm e) = Attempts e + 1"
  by (simp add: attempted_at_def)

lemma map_replace_ids:
  "identity e' = n \<Longrightarrow> map (identity \<circ> (\<lambda>x. if identity x = n then e' else x)) xs = map identity xs"
  by (induction xs) auto

lemma frame_sendFailed:
  "sendFailed w k e se t = (r, e', t') \<Longrightarrow> frame {identity e} t t'"
  by (auto simp: sendFailed_eq frame_def ids_def map_replace_ids retry_exhausted_def
        word_sless_alt word_sle_eq
        split: if_splits)

lemma send_None_iff: "send p b = Inr None \<longleftrightarrow> accepted (p b)"
  by (auto simp: send_def accepted_def split: prod.splits response.splits)

lemma bulk_failed_iff: "bulk_failed resp err = Inr f \<Longrightarrow> f \<longleftrightarrow> \<not> accepted (resp, err)"
  by (auto simp: bulk_failed_def accepted_def split: if_splits response.splits)

lemma sendFailed_sendErr: "sendFailed w k e se t = sendFailed w k e None t"
  by (simp add: sendFailed_def)

lemma emit_event_bulk_event:
  "emit_event w k e (i, t) =
     (case send (post w k) (Event e) of
        Inl p \<Rightarrow> Inl p
      | Inr serr \<Rightarrow> Inr (bulk_event w (serr \<noteq> None) k e (i, t\<lparr>httpc := httpc t @ [Event e]\<rparr>)))"
  by (auto simp: emit_event_def bulk_event_def Let_def sendFailed_sendErr [of _ _ _ "Some _"]
        split: sum.splits option.splits prod.splits)

lemma bulk_event_fst:
  "fst (bulk_event w f k e (i, t)) = (if f then i else Suc i)"
  by (simp add: bulk_event_def split: prod.splits)

lemma bulk_event_httpc:
  "httpc (snd (bulk_event w f k e (i, t))) = httpc t"
  by (simp add: bulk_event_def sendFailed_eq split: prod.splits)

lemma bulk_event_entries:
  "entries (store (snd (bulk_event w f k e (i, t)))) =
     (if \<not> f \<or> retry_exhausted (options t) e
      then (if remove_fails w k then entries (store t)
            else filter (\<lambda>x. identity x \<noteq> identity e) (entries (store t)))
      else if update_fails w k \<or> identity e \<notin> set (ids (store t)) then entries (store t)
      else map (\<lambda>x. if identity x = identity e then attempted_at (now w k) e else x)
             (entries (store t)))"
  by (simp add: bulk_event_def sendFailed_eq remove_if_entries)

lemma bulk_event_frame:
  "frame {identity e} t (snd (bulk_event w f k e (i, t)))"
proof (cases f)
  case False
  then show ?thesis by (simp add: bulk_event_def frame_remove_if)
next
  case True
  obtain r e' t2 where sf: "sendFailed w k e None t = (r, e', t2)"
    by (cases "sendFailed w k e None t") auto
  then have id: "identity e' = identity e"
    by (auto simp: sendFailed_eq split: if_splits)
  have "frame ({identity e} \<union> {identity e'}) t (remove_if w k (fst r) e' t2)"
    by (rule frame_trans [OF frame_sendFailed [OF sf] frame_remove_if])
  with True sf id show ?thesis
    by (cases r) (simp add: bulk_event_def)
qed

lemma bulk_loop_frame:
  "bulk_loop w f k es (i, t) = (i', t') \<Longrightarrow> frame (identity ` set es) t t'"
proof (induction es arbitrary: k i t)
  case Nil
  then show ?case by (simp add: frame_refl)
next
  case (Cons e es)
  obtain i1 t1 where st: "bulk_event w f k e (i, t) = (i1, t1)"
    by (cases "bulk_event w f k e (i, t)") auto
  have f1: "frame {identity e} t t1"
    using bulk_event_frame [of e t w f k i] st by simp
  have f2: "frame (identity ` set es) t1 t'"
    using Cons.IH [of "Suc k" i1 t1] Cons.prems st by simp
  show ?case
    using frame_trans [OF f1 f2] by simp
qed

lemma bulk_loop_httpc:
  "httpc (snd (bulk_loop w f k es (i, t))) = httpc t"
proof (induction es arbitrary: k i t)
  case Nil
  then show ?case by simp
next
  case (Cons e es)
  obtain i1 t1 where st: "bulk_event w f k e (i, t) = (i1, t1)"
    by (cases "bulk_event w f k e (i, t)") auto
  then have "httpc t1 = httpc t"
    using bulk_event_httpc [of w f k e i t] by simp
  with Cons.IH [of "Suc k" i1 t1] st show ?case by simp
qed

lemma bulk_loop_fst:
  "fst (bulk_loop w f k es (i, t)) = (if f then i else i + length es)"
proof (induction es arbitrary: k i t)
  case Nil
  then show ?case by simp
next
  case (Cons e es)
  obtain i1 t1 where st: "bulk_event w f k e (i, t) = (i1, t1)"
    by (cases "bulk_event w f k e (i, t)") auto
  then have "i1 = (if f then i else Suc i)"
    using bulk_event_fst [of w f k e i t] by simp
  with Cons.IH [of "Suc k" i1 t1] st show ?case by simp
qed

lemma bulk_loop_append:
  "bulk_loop w f k (xs @ ys) s = bulk_loop w f (k + length xs) ys (bulk_loop w f k xs s)"
  by (induction xs arbitrary: k s) auto

lemma emit_loop_append:
  "emit_loop w k (xs @ ys) s =
     (case emit_loop w k xs s of Inl p \<Rightarrow> Inl p | Inr s' \<Rightarrow> emit_loop w (k + length xs) ys s')"
  by (induction xs arbitrary: k s) (auto split: sum.splits)

lemma emit_event_Inr:
  assumes "emit_event w k e (i, t) = Inr s'"
  shows "s' = bulk_event w (\<not> accepted (post w k (Event e))) k e
                (i, t\<lparr>httpc := httpc t @ [Event e]\<rparr>)"
proof (cases "send (post w k) (Event e)")
  case (Inl p)
  with assms show ?thesis by (simp add: emit_event_bulk_event)
next
  case (Inr serr)
  then have "serr = None \<longleftrightarrow> accepted (post w k (Event e))"
    using send_None_iff [of "post w k" "Event e"] by simp
  with assms Inr show ?thesis
    by (cases serr) (simp_all add: emit_event_bulk_event)
qed

lemma emit_event_frame:
  "emit_event w k e (i, t) = Inr (i', t') \<Longrightarrow> frame {identity e} t t'"
proof -
  assume a: "emit_event w k e (i, t) = Inr (i', t')"
  have "t' = snd (bulk_event w (\<not> accepted (post w k (Event e))) k e
                (i, t\<lparr>httpc := httpc t @ [Event e]\<rparr>))"
    using emit_event_Inr [OF a] by (metis snd_conv)
  then show ?thesis
    using bulk_event_frame [of e "t\<lparr>httpc := httpc t @ [Event e]\<rparr>" w
        "\<not> accepted (post w k (Event e))" k i]
    by (simp add: frame_httpc)
qed

lemma emit_loop_frame:
  "emit_loop w k es (i, t) = Inr (i', t') \<Longrightarrow> frame (identity ` set es) t t'"
proof (induction es arbitrary: k i t)
  case Nil
  then show ?case by (simp add: frame_refl)
next
  case (Cons e es)
  from Cons.prems obtain i1 t1 where st: "emit_event w k e (i, t) = Inr (i1, t1)"
    and rest: "emit_loop w (Suc k) es (i1, t1) = Inr (i', t')"
    by (auto split: sum.splits)
  show ?case
    using frame_trans [OF emit_event_frame [OF st] Cons.IH [OF rest]] by simp
qed

lemma frame_httpc_target: "frame N t t' \<Longrightarrow> frame N t (t'\<lparr>httpc := h\<rparr>)"
  by (simp add: frame_def)

lemma distinct_nth_take_drop:
  assumes "distinct (map f es)" and "j < length es"
  shows "f (es ! j) \<notin> f ` set (take j es) \<and> f (es ! j) \<notin> f ` set (drop (Suc j) es)"
proof -
  have "es = take j es @ es ! j # drop (Suc j) es"
    using assms(2) by (rule id_take_nth_drop)
  then have "distinct (map f (take j es) @ f (es ! j) # map f (drop (Suc j) es))"
    using assms(1) by (metis list.simps(9) map_append)
  then show ?thesis by auto
qed

lemma entry_fate:
  assumes A: "frame A t t1" and nA: "identity e \<notin> A"
    and B: "frame B t2 t'" and nB: "identity e \<notin> B"
    and step: "t2 = snd (bulk_event w f k e (i1, t1))"
    and mem: "e \<in> set (entries (store t))"
  shows "((\<not> f \<or> retry_exhausted (options t) e) \<and> \<not> remove_fails w k
            \<longrightarrow> identity e \<notin> set (ids (store t'))) \<and>
         ((\<not> f \<or> retry_exhausted (options t) e) \<and> remove_fails w k
            \<longrightarrow> e \<in> set (entries (store t'))) \<and>
         (f \<and> \<not> retry_exhausted (options t) e \<and> update_fails w k
            \<longrightarrow> e \<in> set (entries (store t'))) \<and>
         (f \<and> \<not> retry_exhausted (options t) e \<and> \<not> update_fails w k
            \<longrightarrow> attempted_at (now w k) e \<in> set (entries (store t')) \<and>
                (\<forall>x \<in> set (entries (store t')).
                   identity x = identity e \<longrightarrow> x = attempted_at (now w k) e))"
proof -
  have o1: "options t1 = options t"
    using A by (simp add: frame_def)
  have m1: "x \<in> set (entries (store t1)) \<longleftrightarrow> x \<in> set (entries (store t))"
    if "identity x = identity e" for x
    using A nA that by (simp add: frame_def)
  have m2: "x \<in> set (entries (store t')) \<longleftrightarrow> x \<in> set (entries (store t2))"
    if "identity x = identity e" for x
    using B nB that by (simp add: frame_def)
  have sub: "set (ids (store t')) \<subseteq> set (ids (store t2))"
    using B by (simp add: frame_def)
  have e1: "e \<in> set (entries (store t1))"
    using m1 mem by simp
  then have id1: "identity e \<in> set (ids (store t1))"
    by (auto simp: ids_def)
  note E2 = bulk_event_entries [of w f k e i1 t1, folded step, unfolded o1]
  have c1: "identity e \<notin> set (ids (store t'))"
    if "(\<not> f \<or> retry_exhausted (options t) e) \<and> \<not> remove_fails w k"
  proof -
    have "identity e \<notin> set (ids (store t2))"
      using that E2 by (auto simp: ids_def)
    with sub show ?thesis by blast
  qed
  have c2: "e \<in> set (entries (store t'))"
    if "(\<not> f \<or> retry_exhausted (options t) e) \<and> remove_fails w k"
    using that E2 e1 m2 by auto
  have c3: "e \<in> set (entries (store t'))"
    if "f \<and> \<not> retry_exhausted (options t) e \<and> update_fails w k"
    using that E2 e1 m2 by auto
  have c4: "attempted_at (now w k) e \<in> set (entries (store t')) \<and>
        (\<forall>x \<in> set (entries (store t')). identity x = identity e \<longrightarrow> x = attempted_at (now w k) e)"
    if h: "f \<and> \<not> retry_exhausted (options t) e \<and> \<not> update_fails w k"
  proof -
    have E: "entries (store t2) =
        map (\<lambda>x. if identity x = identity e then attempted_at (now w k) e else x)
          (entries (store t1))"
      using h E2 id1 by simp
    have "attempted_at (now w k) e \<in> set (entries (store t2))"
      unfolding E using e1 by (auto simp: image_iff intro: bexI [of _ e])
    then have p1: "attempted_at (now w k) e \<in> set (entries (store t'))"
      using m2 [of "attempted_at (now w k) e"] by simp
    have p2: "x = attempted_at (now w k) e"
      if "x \<in> set (entries (store t'))" and "identity x = identity e" for x
    proof -
      have "x \<in> set (entries (store t2))"
        using that m2 by simp
      then show ?thesis
        unfolding E using that(2) by (auto split: if_splits)
    qed
    from p1 p2 show ?thesis by blast
  qed
  from c1 c2 c3 c4 show ?thesis by blast
qed

lemma bulk_loop_at:
  assumes j: "j < length es"
    and res: "bulk_loop w f k es (i, t) = (i', t')"
  shows "\<exists>i1 t1 t2. frame (identity ` set (take j es)) t t1 \<and>
           t2 = snd (bulk_event w f (k + j) (es ! j) (i1, t1)) \<and>
           frame (identity ` set (drop (Suc j) es)) t2 t'"
proof -
  obtain i1 t1 where pre: "bulk_loop w f k (take j es) (i, t) = (i1, t1)"
    by (cases "bulk_loop w f k (take j es) (i, t)") auto
  obtain i2 t2 where st: "bulk_event w f (k + j) (es ! j) (i1, t1) = (i2, t2)"
    by (cases "bulk_event w f (k + j) (es ! j) (i1, t1)") auto
  have join: "take j es @ es ! j # drop (Suc j) es = es"
    using id_take_nth_drop [OF j] by simp
  have "bulk_loop w f k (take j es @ es ! j # drop (Suc j) es) (i, t) =
      bulk_loop w f (k + j) (es ! j # drop (Suc j) es) (bulk_loop w f k (take j es) (i, t))"
    using j by (simp only: bulk_loop_append length_take min_absorb2 less_imp_le)
  then have "bulk_loop w f k es (i, t) =
      bulk_loop w f (k + j) (es ! j # drop (Suc j) es) (i1, t1)"
    by (simp only: join pre)
  then have post: "bulk_loop w f (Suc (k + j)) (drop (Suc j) es) (i2, t2) = (i', t')"
    using st res by simp
  show ?thesis
    using bulk_loop_frame [OF pre] bulk_loop_frame [OF post] st
    by (metis snd_conv)
qed

lemma emit_loop_at:
  assumes j: "j < length es"
    and res: "emit_loop w k es (i, t) = Inr (i', t')"
  shows "\<exists>i1 t1 t2. frame (identity ` set (take j es)) t t1 \<and>
           t2 = snd (bulk_event w (\<not> accepted (post w (k + j) (Event (es ! j)))) (k + j) (es ! j) (i1, t1)) \<and>
           frame (identity ` set (drop (Suc j) es)) t2 t'"
proof -
  have join: "take j es @ es ! j # drop (Suc j) es = es"
    using id_take_nth_drop [OF j] by simp
  have "emit_loop w k (take j es @ es ! j # drop (Suc j) es) (i, t) =
      (case emit_loop w k (take j es) (i, t) of
         Inl p \<Rightarrow> Inl p
       | Inr s' \<Rightarrow> emit_loop w (k + j) (es ! j # drop (Suc j) es) s')"
    using j by (simp only: emit_loop_append length_take min_absorb2 less_imp_le)
  then have eq: "(case emit_loop w k (take j es) (i, t) of
         Inl p \<Rightarrow> Inl p
       | Inr s' \<Rightarrow> emit_loop w (k + j) (es ! j # drop (Suc j) es) s') = Inr (i', t')"
    using res by (simp only: join)
  then obtain i1 t1 where pre: "emit_loop w k (take j es) (i, t) = Inr (i1, t1)"
    and rest: "emit_loop w (k + j) (es ! j # drop (Suc j) es) (i1, t1) = Inr (i', t')"
    by (cases "emit_loop w k (take j es) (i, t)") auto
  from rest obtain i2 t2 where st: "emit_event w (k + j) (es ! j) (i1, t1) = Inr (i2, t2)"
    and post: "emit_loop w (Suc (k + j)) (drop (Suc j) es) (i2, t2) = Inr (i', t')"
    by (cases "emit_event w (k + j) (es ! j) (i1, t1)") auto
  have "t2 = snd (bulk_event w (\<not> accepted (post w (k + j) (Event (es ! j)))) (k + j) (es ! j)
                (i1, t1\<lparr>httpc := httpc t1 @ [Event (es ! j)]\<rparr>))"
    using emit_event_Inr [OF st] by (metis snd_conv)
  moreover have "frame (identity ` set (take j es)) t (t1\<lparr>httpc := httpc t1 @ [Event (es ! j)]\<rparr>)"
    using emit_loop_frame [OF pre] by (rule frame_httpc_target)
  ultimately show ?thesis
    using emit_loop_frame [OF post] by blast
qed

lemma upt_0_Suc: "[0..<Suc n] = 0 # map Suc [0..<n]"
  by (simp only: map_Suc_upt upt_conv_Cons [of 0 "Suc n"] zero_less_Suc)

lemma emit_loop_count:
  "emit_loop w k es (i, t) = Inr (i', t') \<Longrightarrow>
     i' = i + length (filter (\<lambda>j. accepted (post w (k + j) (Event (es ! j)))) [0..<length es])"
proof (induction es arbitrary: k i t)
  case Nil
  then show ?case by simp
next
  case (Cons e es)
  from Cons.prems obtain i1 t1 where st: "emit_event w k e (i, t) = Inr (i1, t1)"
    and rest: "emit_loop w (Suc k) es (i1, t1) = Inr (i', t')"
    by (auto split: sum.splits)
  have i1: "i1 = (if accepted (post w k (Event e)) then Suc i else i)"
    using emit_event_Inr [OF st] bulk_event_fst [of w "\<not> accepted (post w k (Event e))" k e i]
    by (metis fst_conv)
  have "length (filter (\<lambda>j. accepted (post w (k + j) (Event ((e # es) ! j)))) [0..<length (e # es)]) =
      (if accepted (post w k (Event e)) then 1 else 0) +
      length (filter (\<lambda>j. accepted (post w (Suc k + j) (Event (es ! j)))) [0..<length es])"
    by (simp add: upt_0_Suc filter_map comp_def del: upt_Suc)
  with Cons.IH [OF rest] i1 show ?case by simp
qed

lemma emit_empty: "entries (store t) = [] \<Longrightarrow> emit w t = Inr ((0, None), t)"
  by (simp add: emit_def Store_Count_def)

lemma emit_getall_fails:
  "entries (store t) \<noteq> [] \<Longrightarrow> getall_fails w \<Longrightarrow> emit w t = Inr ((0, Some StoreFailure), t)"
  by (simp add: emit_def emitBulk_def Store_Count_def Store_GetAll_def)

lemma emit_single:
  "entries (store t) \<noteq> [] \<Longrightarrow> \<not> getall_fails w \<Longrightarrow> \<not> Bulk (options t) \<Longrightarrow>
   emit w t = (case emit_loop w 0 (entries (store t)) (0, t) of
                 Inl p \<Rightarrow> Inl p
               | Inr (i, t') \<Rightarrow> Inr ((i, None), t'))"
  by (simp add: emit_def Store_Count_def Store_GetAll_def)

lemma emit_bulk:
  "entries (store t) \<noteq> [] \<Longrightarrow> \<not> getall_fails w \<Longrightarrow> Bulk (options t) \<Longrightarrow>
   post w 0 (bytes_Join (map Event (entries (store t))) [10]) = (resp, err) \<Longrightarrow>
   emit w t =
     (case bulk_failed resp err of
        Inl p \<Rightarrow> Inl p
      | Inr failed \<Rightarrow>
          (case bulk_debug (Debug (options t)) resp of
             Inl p \<Rightarrow> Inl p
           | Inr u \<Rightarrow>
               Inr ((fst (bulk_loop w failed 0 (entries (store t))
                            (0, t\<lparr>httpc := httpc t @ [bytes_Join (map Event (entries (store t))) [10]]\<rparr>)),
                     None),
                    snd (bulk_loop w failed 0 (entries (store t))
                            (0, t\<lparr>httpc := httpc t @ [bytes_Join (map Event (entries (store t))) [10]]\<rparr>)))))"
  by (simp add: emit_def emitBulk_def Store_Count_def Store_GetAll_def Let_def
        split: sum.splits prod.splits)

lemma emit_bulk_Inr:
  assumes "entries (store t) \<noteq> []" and "\<not> getall_fails w" and "Bulk (options t)"
    and "emit w t = Inr ((n, r), t')"
  shows "bulk_loop w (\<not> accepted (post w 0 (bytes_Join (map Event (entries (store t))) [10]))) 0
           (entries (store t))
           (0, t\<lparr>httpc := httpc t @ [bytes_Join (map Event (entries (store t))) [10]]\<rparr>) = (n, t')
         \<and> r = None"
proof -
  obtain resp err where p: "post w 0 (bytes_Join (map Event (entries (store t))) [10]) = (resp, err)"
    by (cases "post w 0 (bytes_Join (map Event (entries (store t))) [10])") auto
  from assms(4) obtain f where bf: "bulk_failed resp err = Inr f"
    by (cases "bulk_failed resp err") (simp_all add: emit_bulk [OF assms(1-3) p])
  have f: "f \<longleftrightarrow> \<not> accepted (resp, err)"
    using bulk_failed_iff [OF bf] .
  from assms(4) bf show ?thesis
    by (cases "bulk_debug (Debug (options t)) resp")
       (auto simp: emit_bulk [OF assms(1-3) p] p f)
qed

lemma emit_single_Inr:
  assumes "entries (store t) \<noteq> []" and "\<not> getall_fails w" and "\<not> Bulk (options t)"
    and "emit w t = Inr ((n, r), t')"
  shows "emit_loop w 0 (entries (store t)) (0, t) = Inr (n, t') \<and> r = None"
  using assms(4) by (auto simp: emit_single [OF assms(1-3)] split: sum.splits)

lemma emit_delivered_count:
  assumes "emit w t = Inr ((n, r), t')"
  shows "n = length (delivered w t)"
proof (cases "entries (store t) = []")
  case True
  with assms show ?thesis
    by (simp add: emit_empty delivered_def)
next
  case ne: False
  show ?thesis
  proof (cases "getall_fails w")
    case True
    with assms ne show ?thesis
      by (simp add: emit_getall_fails delivered_def)
  next
    case ga: False
    show ?thesis
    proof (cases "Bulk (options t)")
      case True
      from emit_bulk_Inr [OF ne ga True assms] have "n = fst (bulk_loop w
          (\<not> accepted (post w 0 (bytes_Join (map Event (entries (store t))) [10]))) 0
           (entries (store t))
           (0, t\<lparr>httpc := httpc t @ [bytes_Join (map Event (entries (store t))) [10]]\<rparr>))"
        by simp
      with True ga show ?thesis
        by (simp add: bulk_loop_fst delivered_def)
    next
      case False
      from emit_single_Inr [OF ne ga False assms]
      have "emit_loop w 0 (entries (store t)) (0, t) = Inr (n, t')" by simp
      from emit_loop_count [OF this] False ga show ?thesis
        by (simp add: delivered_def)
    qed
  qed
qed

lemma delivered_iff:
  assumes "\<not> getall_fails w" and "j < length (entries (store t))"
  shows "j \<in> set (delivered w t) \<longleftrightarrow>
     (if Bulk (options t) then accepted (post w 0 (bytes_Join (map Event (entries (store t))) [10]))
      else accepted (post w j (Event (entries (store t) ! j))))"
  using assms by (simp add: delivered_def)

lemma emit_at:
  assumes res: "emit w t = Inr ((n, r), t')" and ga: "\<not> getall_fails w"
    and j: "j < length (entries (store t))"
  shows "\<exists>i1 t1 t2. frame (identity ` set (take j (entries (store t)))) t t1 \<and>
           t2 = snd (bulk_event w (j \<notin> set (delivered w t)) j (entries (store t) ! j) (i1, t1)) \<and>
           frame (identity ` set (drop (Suc j) (entries (store t)))) t2 t'"
proof -
  from j have ne: "entries (store t) \<noteq> []" by auto
  show ?thesis
  proof (cases "Bulk (options t)")
    case True
    from emit_bulk_Inr [OF ne ga True res] bulk_loop_at [OF j, of w _ 0 0 _ n t']
    obtain i1 t1 t2 where
      "frame (identity ` set (take j (entries (store t))))
         (t\<lparr>httpc := httpc t @ [bytes_Join (map Event (entries (store t))) [10]]\<rparr>) t1"
      "t2 = snd (bulk_event w (\<not> accepted (post w 0 (bytes_Join (map Event (entries (store t))) [10])))
                 (0 + j) (entries (store t) ! j) (i1, t1))"
      "frame (identity ` set (drop (Suc j) (entries (store t)))) t2 t'"
      by blast
    then show ?thesis
      using delivered_iff [OF ga j] True frame_httpc by (simp; blast)
  next
    case False
    from emit_single_Inr [OF ne ga False res] emit_loop_at [OF j, of w 0 0 t n t']
    obtain i1 t1 t2 where
      "frame (identity ` set (take j (entries (store t)))) t t1"
      "t2 = snd (bulk_event w (\<not> accepted (post w (0 + j) (Event (entries (store t) ! j))))
                 (0 + j) (entries (store t) ! j) (i1, t1))"
      "frame (identity ` set (drop (Suc j) (entries (store t)))) t2 t'"
      by blast
    then show ?thesis
      using delivered_iff [OF ga j] False by (simp; blast)
  qed
qed

lemma emit_fate:
  assumes res: "emit w t = Inr ((n, r), t')" and ga: "\<not> getall_fails w"
    and d: "distinct (ids (store t))" and j: "j < length (entries (store t))"
    and e: "e = entries (store t) ! j"
  shows "((j \<in> set (delivered w t) \<or> retry_exhausted (options t) e) \<and> \<not> remove_fails w j
            \<longrightarrow> identity e \<notin> set (ids (store t'))) \<and>
         ((j \<in> set (delivered w t) \<or> retry_exhausted (options t) e) \<and> remove_fails w j
            \<longrightarrow> e \<in> set (entries (store t'))) \<and>
         (j \<notin> set (delivered w t) \<and> \<not> retry_exhausted (options t) e \<and> update_fails w j
            \<longrightarrow> e \<in> set (entries (store t'))) \<and>
         (j \<notin> set (delivered w t) \<and> \<not> retry_exhausted (options t) e \<and> \<not> update_fails w j
            \<longrightarrow> attempted_at (now w j) e \<in> set (entries (store t')) \<and>
                (\<forall>x \<in> set (entries (store t')).
                   identity x = identity e \<longrightarrow> x = attempted_at (now w j) e))"
proof -
  from emit_at [OF res ga j] obtain i1 t1 t2 where
    A: "frame (identity ` set (take j (entries (store t)))) t t1" and
    st: "t2 = snd (bulk_event w (j \<notin> set (delivered w t)) j e (i1, t1))" and
    B: "frame (identity ` set (drop (Suc j) (entries (store t)))) t2 t'"
    unfolding e by blast
  from d have d': "distinct (map identity (entries (store t)))" by (simp add: ids_def)
  from distinct_nth_take_drop [OF d' j]
  have nA: "identity e \<notin> identity ` set (take j (entries (store t)))"
    and nB: "identity e \<notin> identity ` set (drop (Suc j) (entries (store t)))"
    unfolding e by simp_all
  have mem: "e \<in> set (entries (store t))"
    using j e by simp
  from entry_fate [OF A nA B nB st mem] show ?thesis by simp
qed

lemma entry_removed:
  assumes A: "frame A t t1" and B: "frame B t2 t'"
    and step: "t2 = snd (bulk_event w f k e (i1, t1))"
    and c: "\<not> f \<or> retry_exhausted (options t) e" and r: "\<not> remove_fails w k"
  shows "identity e \<notin> set (ids (store t'))"
proof -
  have o1: "options t1 = options t"
    using A by (simp add: frame_def)
  have "identity e \<notin> set (ids (store t2))"
    using c r bulk_event_entries [of w f k e i1 t1] o1 step by (auto simp: ids_def)
  moreover have "set (ids (store t')) \<subseteq> set (ids (store t2))"
    using B by (simp add: frame_def)
  ultimately show ?thesis by blast
qed

lemma emit_removed:
  assumes res: "emit w t = Inr ((n, r), t')" and ga: "\<not> getall_fails w"
    and j: "j < length (entries (store t))"
    and c: "j \<in> set (delivered w t) \<or> retry_exhausted (options t) (entries (store t) ! j)"
    and rf: "\<not> remove_fails w j"
  shows "identity (entries (store t) ! j) \<notin> set (ids (store t'))"
proof -
  from emit_at [OF res ga j] obtain i1 t1 t2 where
    A: "frame (identity ` set (take j (entries (store t)))) t t1" and
    st: "t2 = snd (bulk_event w (j \<notin> set (delivered w t)) j (entries (store t) ! j) (i1, t1))" and
    B: "frame (identity ` set (drop (Suc j) (entries (store t)))) t2 t'"
    by blast
  from c have "\<not> (j \<notin> set (delivered w t)) \<or> retry_exhausted (options t) (entries (store t) ! j)"
    by simp
  from entry_removed [OF A B st this rf] show ?thesis .
qed

lemma emit_frame:
  assumes "emit w t = Inr (r, t')"
  shows "frame UNIV t t'"
proof -
  obtain n r' where r: "r = (n, r')" by (cases r) auto
  show ?thesis
  proof (cases "entries (store t) = [] \<or> getall_fails w")
    case True
    with assms have "t' = t"
      by (cases "entries (store t) = []") (auto simp: emit_empty emit_getall_fails)
    then show ?thesis by (simp add: frame_refl)
  next
    case False
    then have ne: "entries (store t) \<noteq> []" and ga: "\<not> getall_fails w" by simp_all
    show ?thesis
    proof (cases "Bulk (options t)")
      case True
      from emit_bulk_Inr [OF ne ga True assms [unfolded r]]
      have "frame (identity ` set (entries (store t))) t t'"
        using bulk_loop_frame frame_httpc by blast
      then show ?thesis by (rule frame_mono) simp
    next
      case False
      from emit_single_Inr [OF ne ga False assms [unfolded r]]
      have "frame (identity ` set (entries (store t))) t t'"
        using emit_loop_frame by blast
      then show ?thesis by (rule frame_mono) simp
    qed
  qed
qed

lemma Flush_frame: "Flush w t = Inr t' \<Longrightarrow> frame UNIV t t'"
  by (auto simp: Flush_def split: sum.splits dest: emit_frame)

lemma frame_bounded:
  "frame N t t' \<Longrightarrow> 0 <s MaxRetries (options t) \<Longrightarrow> bounded t \<Longrightarrow> bounded t'"
  unfolding frame_def bounded_def by auto

lemma frame_fresh: "frame N t t' \<Longrightarrow> fresh_ids t \<Longrightarrow> fresh_ids t'"
  unfolding frame_def fresh_ids_def by auto

lemma Store_Set_bounded:
  assumes "Store_Set f e (store t) = Inr s'" and "0 <s MaxRetries (options t)" and "bounded t"
  shows "bounded (t\<lparr>q := rest, store := s'\<rparr>)"
  using assms
  by (auto simp: Store_Set_def bounded_def word_sless_alt word_sle_eq split: if_splits)

lemma Store_Set_fresh:
  assumes "Store_Set f e (store t) = Inr s'" and "fresh_ids t"
  shows "fresh_ids (t\<lparr>q := rest, store := s'\<rparr>)"
  using assms
proof -
  from assms(1) have s': "s' = (store t)\<lparr>entries := entries (store t) @
        [\<lparr>identity = next_id (store t), Event = payload e, Attempted = False,
          Attempts = 0, LastAttempt = 0\<rparr>],
      next_id := Suc (next_id (store t))\<rparr>"
    by (simp add: Store_Set_def split: if_splits)
  have "next_id (store t) \<notin> set (ids (store t))"
    using assms(2) by (auto simp: fresh_ids_def)
  with assms(2) show ?thesis
    unfolding s' by (auto simp: fresh_ids_def ids_def less_Suc_eq)
qed

lemma run_iter_cases:
  assumes "run_iter w s t = Inr (go_on, t')"
  shows "t' = t \<or> (\<exists>e rest. q t = e # rest \<and> t' = t\<lparr>q := rest\<rparr>) \<or> Flush w t = Inr t' \<or>
         (\<exists>e rest s'. q t = e # rest \<and> Store_Set (set_fails w) e (store t) = Inr s' \<and>
            (t' = t\<lparr>q := rest, store := s'\<rparr> \<or> Flush w (t\<lparr>q := rest, store := s'\<rparr>) = Inr t'))"
  using assms
  by (cases s) (auto simp: Let_def split: list.splits if_splits sum.splits)

lemma run_iter_options:
  assumes "run_iter w s t = Inr (go_on, t')"
  shows "options t' = options t"
  using run_iter_cases [OF assms] by (auto dest!: Flush_frame simp: frame_def)

lemma run_iter_bounded:
  assumes "run_iter w s t = Inr (go_on, t')" and "0 <s MaxRetries (options t)" and "bounded t"
  shows "bounded t'"
proof -
  have b: "bounded (t\<lparr>q := rest\<rparr>)" for rest
    using assms(3) by (simp add: bounded_def)
  from run_iter_cases [OF assms(1)] show ?thesis
  proof (elim disjE exE conjE)
    assume "t' = t"
    with assms(3) show ?thesis by simp
  next
    fix e rest assume "t' = t\<lparr>q := rest\<rparr>"
    with b show ?thesis by simp
  next
    assume "Flush w t = Inr t'"
    from frame_bounded [OF Flush_frame [OF this] assms(2,3)] show ?thesis .
  next
    fix e rest s'
    assume s: "Store_Set (set_fails w) e (store t) = Inr s'" and "t' = t\<lparr>q := rest, store := s'\<rparr>"
    with Store_Set_bounded [OF s assms(2,3)] show ?thesis by simp
  next
    fix e rest s'
    assume s: "Store_Set (set_fails w) e (store t) = Inr s'"
      and f: "Flush w (t\<lparr>q := rest, store := s'\<rparr>) = Inr t'"
    have "bounded (t\<lparr>q := rest, store := s'\<rparr>)"
      using Store_Set_bounded [OF s assms(2,3)] .
    from frame_bounded [OF Flush_frame [OF f] _ this] assms(2) show ?thesis by simp
  qed
qed

lemma run_bounded:
  "run sched t = Inr t' \<Longrightarrow> 0 <s MaxRetries (options t) \<Longrightarrow> bounded t \<Longrightarrow> bounded t'"
proof (induction sched arbitrary: t)
  case Nil
  then show ?case by simp
next
  case (Cons a sched)
  obtain w s where a: "a = (w, s)" by (cases a) auto
  from Cons.prems(1) a obtain go_on t1 where it: "run_iter w s t = Inr (go_on, t1)"
    and rest: "(if go_on then run sched t1 else Inr t1) = Inr t'"
    by (auto split: sum.splits)
  have b1: "bounded t1"
    using run_iter_bounded [OF it Cons.prems(2,3)] .
  have o1: "0 <s MaxRetries (options t1)"
    using run_iter_options [OF it] Cons.prems(2) by simp
  show ?case
  proof (cases go_on)
    case True
    with rest have "run sched t1 = Inr t'" by simp
    from Cons.IH [OF this o1 b1] show ?thesis .
  next
    case False
    with rest b1 show ?thesis by simp
  qed
qed


lemma send_with_response:
  "do_post e = (Response code, terr) \<Longrightarrow>
     \<exists>r. send do_post e = Inr r \<and> (r \<noteq> None \<longleftrightarrow> terr \<noteq> None \<or> code > 299)"
  by (simp add: send_def)

lemma run_iter_set_fails:
  assumes "set_fails w" and "q t = e # rest" and "Strict (options t) \<longrightarrow> valid e"
  shows "run_iter w Recv t = Inr (True, t\<lparr>q := rest\<rparr>)"
  using assms by (auto simp: Store_Set_def)

lemma sendFailed_update_fails:
  assumes "\<not> retry_exhausted (options t) x" and "update_fails w k"
  shows "sendFailed w k x se t = ((False, Some UpdateFailed), attempted_at (now w k) x, t)"
  using assms by (simp add: sendFailed_eq)

lemma Close_frame: "Close w t = Inr t' \<Longrightarrow> frame UNIV (t\<lparr>cl := True\<rparr>) t'"
  by (auto simp: Close_def split: if_splits dest: Flush_frame)

lemma delivered_bound:
  "j \<in> set (delivered w t) \<Longrightarrow> \<not> getall_fails w \<and> j < length (entries (store t))"
  by (auto simp: delivered_def split: if_splits)

lemma run_iter_fresh:
  assumes "run_iter w s t = Inr (go_on, t')" and "fresh_ids t"
  shows "fresh_ids t'"
proof -
  have b: "fresh_ids (t\<lparr>q := rest\<rparr>)" for rest
    using assms(2) by (simp add: fresh_ids_def)
  from run_iter_cases [OF assms(1)] show ?thesis
  proof (elim disjE exE conjE)
    assume "t' = t"
    with assms(2) show ?thesis by simp
  next
    fix e rest assume "t' = t\<lparr>q := rest\<rparr>"
    with b show ?thesis by simp
  next
    assume "Flush w t = Inr t'"
    from frame_fresh [OF Flush_frame [OF this] assms(2)] show ?thesis .
  next
    fix e rest s'
    assume s: "Store_Set (set_fails w) e (store t) = Inr s'" and "t' = t\<lparr>q := rest, store := s'\<rparr>"
    with Store_Set_fresh [OF s assms(2)] show ?thesis by simp
  next
    fix e rest s'
    assume s: "Store_Set (set_fails w) e (store t) = Inr s'"
      and f: "Flush w (t\<lparr>q := rest, store := s'\<rparr>) = Inr t'"
    have "fresh_ids (t\<lparr>q := rest, store := s'\<rparr>)"
      using Store_Set_fresh [OF s assms(2)] .
    from frame_fresh [OF Flush_frame [OF f] this] show ?thesis .
  qed
qed

lemma run_fresh: "run sched t = Inr t' \<Longrightarrow> fresh_ids t \<Longrightarrow> fresh_ids t'"
proof (induction sched arbitrary: t)
  case Nil
  then show ?case by simp
next
  case (Cons a sched)
  obtain w s where a: "a = (w, s)" by (cases a) auto
  from Cons.prems(1) a obtain go_on t1 where it: "run_iter w s t = Inr (go_on, t1)"
    and rest: "(if go_on then run sched t1 else Inr t1) = Inr t'"
    by (auto split: sum.splits)
  have f1: "fresh_ids t1"
    using run_iter_fresh [OF it Cons.prems(2)] .
  show ?case
  proof (cases go_on)
    case True
    with rest have "run sched t1 = Inr t'" by simp
    from Cons.IH [OF this f1] show ?thesis .
  next
    case False
    with rest f1 show ?thesis by simp
  qed
qed

lemma New_fresh: "New store_fails opts = Inr t \<Longrightarrow> fresh_ids t"
  by (auto simp: New_def fresh_ids_def ids_def split: if_splits)

lemma New_bounded: "New store_fails opts = Inr t \<Longrightarrow> bounded t"
  by (auto simp: New_def bounded_def split: if_splits)

text \<open>
  Scenarios A and B of the spec, run on the model: three events with a flush threshold of
  three are all delivered by the flush the third insert triggers; with \<^verbatim>\<open>MaxRetries = 2\<close>
  an event whose sends all fail is still stored, with two attempts, after two flushes and
  is gone after the third.
\<close>

lemma scenario_A:
  "run [(answering (Response 200, None), Recv), (answering (Response 200, None), Recv),
        (answering (Response 200, None), Recv)]
       ((client_with (opts_example\<lparr>MaxRetries := 0\<rparr>) [])
          \<lparr>q := [event_example True, event_example True, event_example True]\<rparr>) =
     Inr ((client_with (opts_example\<lparr>MaxRetries := 0\<rparr>) [])
            \<lparr>httpc := [[42], [42], [42]], store := \<lparr>entries = [], next_id = 3\<rparr>\<rparr>)"
  by (simp add: model_defs example_defs event_example_def)

lemma scenario_B:
  "run [(answering (Response 500, None), Tick), (answering (Response 500, None), Tick)]
       (client_with opts_example [stored 0 0]) =
     Inr ((client_with opts_example [])\<lparr>httpc := [[0], [0]],
            store := \<lparr>entries = [(stored 0 2)\<lparr>LastAttempt := 7\<rparr>], next_id = 1\<rparr>\<rparr>)"
  "run [(answering (Response 500, None), Tick), (answering (Response 500, None), Tick),
        (answering (Response 500, None), Tick)]
       (client_with opts_example [stored 0 0]) =
     Inr ((client_with opts_example [])\<lparr>httpc := [[0], [0], [0]],
            store := \<lparr>entries = [], next_id = 1\<rparr>\<rparr>)"
  by (simp_all add: model_defs example_defs)

lemma bulk_event_removed:
  assumes "\<not> f \<or> retry_exhausted (options t) e" and "\<not> remove_fails w k"
  shows "identity e \<notin> set (ids (store (snd (bulk_event w f k e (i, t)))))"
  using assms bulk_event_entries [of w f k e i t] by (auto simp: ids_def)

lemma emit_event_removed:
  assumes "emit_event w k e (i, t) = Inr (i', t')"
    and "accepted (post w k (Event e)) \<or> retry_exhausted (options t) e"
    and "\<not> remove_fails w k"
  shows "identity e \<notin> set (ids (store t'))"
proof -
  have "t' = snd (bulk_event w (\<not> accepted (post w k (Event e))) k e
                (i, t\<lparr>httpc := httpc t @ [Event e]\<rparr>))"
    using emit_event_Inr [OF assms(1)] by (metis snd_conv)
  with bulk_event_removed [of "\<not> accepted (post w k (Event e))" "t\<lparr>httpc := httpc t @ [Event e]\<rparr>"
      e w k i] assms(2,3)
  show ?thesis by simp
qed




lemma delivered_cl [simp]: "delivered w (t\<lparr>cl := c\<rparr>) = delivered w t"
  by (simp add: delivered_def)

section \<open>Properties\<close>

text \<open>
  C8. When the Store holds no event, a flush does nothing: \<^verbatim>\<open>emit\<close> returns 0 and no
  error, posts no request and leaves the client, and with it the Store, as it was.
\<close>

theorem emit_empty_noop:
  "Store_Count (store t) = 0 \<Longrightarrow> emit w t = Inr ((0, None), t)"
  by (simp add: emit_def)

theorem emit_empty_noop_witness:
  "Store_Count (store (client_with opts_example [])) = 0 \<and>
   emit (answering (Response 200, None)) (client_with opts_example []) =
     Inr ((0, None), client_with opts_example [])"
  using emit_empty_noop [of "client_with opts_example []" "answering (Response 200, None)"]
  by (simp add: Store_Count_def client_with_def)

text \<open>
  C1, amended. What the retry policy does with an event \<open>e\<close> whose send failed.
  \<^verbatim>\<open>sendFailed\<close> marks the event as attempted, adds exactly one to its attempts count
  (in 64-bit arithmetic) and records the current time. It gives up, returning
  \<^verbatim>\<open>rm = true\<close> and no error, exactly when \<^verbatim>\<open>MaxRetries\<close> is positive and the
  incremented count exceeds it; with \<^verbatim>\<open>MaxRetries = 0\<close> it never gives up, whatever the
  attempts count. On giving up it leaves the Store alone and the caller calls
  \<^verbatim>\<open>Remove\<close>: if that call does not fail, no entry of the event's identity is left and
  all other entries are as before; if it fails, the client is as before and the event is
  still stored. Otherwise nothing is removed and \<^verbatim>\<open>Update\<close> is called: if the entry
  still exists and the call does not fail, the Store holds the updated event as the one
  entry of its identity, all other entries are as before and no error is returned; if
  not, the client is unchanged and an error is returned.
\<close>

theorem sendFailed_policy:
  assumes "sendFailed w k e sendErr t = ((rm, ferr), e', t')"
  shows "e' = e\<lparr>Attempted := True, Attempts := Attempts e + 1, LastAttempt := now w k\<rparr> \<and>
         (rm \<longleftrightarrow> 0 <s MaxRetries (options t) \<and> MaxRetries (options t) <s Attempts e + 1) \<and>
         (MaxRetries (options t) = 0 \<longrightarrow> \<not> rm) \<and>
         (rm \<longrightarrow> t' = t \<and> ferr = None \<and>
            (\<not> remove_fails w k \<longrightarrow>
               identity e \<notin> set (ids (store (remove_if w k rm e' t'))) \<and>
               (\<forall>x. identity x \<noteq> identity e \<longrightarrow>
                  (x \<in> set (entries (store (remove_if w k rm e' t'))) \<longleftrightarrow>
                   x \<in> set (entries (store t))))) \<and>
            (remove_fails w k \<longrightarrow> remove_if w k rm e' t' = t)) \<and>
         (\<not> rm \<longrightarrow> remove_if w k rm e' t' = t' \<and>
            (\<not> update_fails w k \<and> identity e \<in> set (ids (store t)) \<longrightarrow>
               ferr = None \<and> e' \<in> set (entries (store t')) \<and>
               (\<forall>x \<in> set (entries (store t')). identity x = identity e \<longrightarrow> x = e') \<and>
               (\<forall>x. identity x \<noteq> identity e \<longrightarrow>
                  (x \<in> set (entries (store t')) \<longleftrightarrow> x \<in> set (entries (store t))))) \<and>
            (update_fails w k \<or> identity e \<notin> set (ids (store t)) \<longrightarrow>
               t' = t \<and> ferr = Some UpdateFailed))"
proof -
  let ?e = "attempted_at (now w k) e"
  note eq = assms [unfolded sendFailed_eq]
  have e': "e' = ?e"
    using eq by (auto split: if_splits)
  have rm: "rm \<longleftrightarrow> retry_exhausted (options t) e"
    using eq by (auto split: if_splits)
  have up: "ferr = None \<and> ?e \<in> set (entries (store t')) \<and>
      (\<forall>x \<in> set (entries (store t')). identity x = identity e \<longrightarrow> x = ?e) \<and>
      (\<forall>x. identity x \<noteq> identity e \<longrightarrow>
          (x \<in> set (entries (store t')) \<longleftrightarrow> x \<in> set (entries (store t))))"
    if "\<not> rm" and "\<not> update_fails w k" and "identity e \<in> set (ids (store t))"
  proof -
    from that rm eq have t': "t' = t\<lparr>store := (store t)\<lparr>entries :=
                 map (\<lambda>x. if identity x = identity e then ?e else x) (entries (store t))\<rparr>\<rparr>"
      and f: "ferr = None"
      by (auto split: if_splits)
    from that(3) obtain y where "y \<in> set (entries (store t))" and "identity y = identity e"
      by (auto simp: ids_def)
    then have "?e \<in> set (entries (store t'))"
      unfolding t' by (auto simp: image_iff intro: bexI [of _ y])
    with f show ?thesis
      unfolding t' by (auto split: if_splits)
  qed
  have fail: "t' = t \<and> ferr = Some UpdateFailed"
    if "\<not> rm" and "update_fails w k \<or> identity e \<notin> set (ids (store t))"
    using that rm eq by (auto split: if_splits)
  have gu: "t' = t \<and> ferr = None" if rm
    using that rm eq by (auto split: if_splits)
  have rem: "identity e \<notin> set (ids (store (remove_if w k rm e' t'))) \<and>
      (\<forall>x. identity x \<noteq> identity e \<longrightarrow>
          (x \<in> set (entries (store (remove_if w k rm e' t'))) \<longleftrightarrow> x \<in> set (entries (store t))))"
    if rm and "\<not> remove_fails w k"
    using that gu e' by (auto simp: remove_if_entries ids_def)
  have keep: "remove_if w k rm e' t' = t" if rm and "remove_fails w k"
    using that gu by (simp add: remove_if_def Store_Remove_def)
  have nrm: "remove_if w k rm e' t' = t'" if "\<not> rm"
    using that by (simp add: remove_if_def)
  have a: "e' = e\<lparr>Attempted := True, Attempts := Attempts e + 1, LastAttempt := now w k\<rparr>"
    using e' by (simp add: attempted_at_def)
  have b: "rm \<longleftrightarrow> 0 <s MaxRetries (options t) \<and> MaxRetries (options t) <s Attempts e + 1"
    using rm by (simp add: retry_exhausted_def)
  have c: "MaxRetries (options t) = 0 \<longrightarrow> \<not> rm"
    using b by (auto simp: word_sless_alt)
  from a b c up [unfolded e' [symmetric]] fail gu rem keep nrm show ?thesis
    by blast
qed

theorem sendFailed_policy_witness:
  "sendFailed (answering (Response 500, None)) 0 (stored 0 2) None
       (client_with opts_example [stored 0 2]) =
     ((True, None), attempted_at 7 (stored 0 2), client_with opts_example [stored 0 2]) \<and>
   \<not> remove_fails (answering (Response 500, None)) 0 \<and>
   identity (stored 0 2) \<notin>
     set (ids (store (remove_if (answering (Response 500, None)) 0 True
                        (attempted_at 7 (stored 0 2)) (client_with opts_example [stored 0 2])))) \<and>
   sendFailed (answering (Response 500, None)) 0 (stored 0 0) None
       (client_with opts_example [stored 0 0]) =
     ((False, None), attempted_at 7 (stored 0 0),
      client_with opts_example [attempted_at 7 (stored 0 0)]) \<and>
   \<not> update_fails (answering (Response 500, None)) 0 \<and>
   identity (stored 0 0) \<in> set (ids (store (client_with opts_example [stored 0 0]))) \<and>
   attempted_at 7 (stored 0 0) \<in>
     set (entries (store (client_with opts_example [attempted_at 7 (stored 0 0)])))"
  (is "?h1 \<and> ?h2 \<and> ?c1 \<and> ?h3 \<and> ?h4 \<and> ?h5 \<and> ?c2")
proof -
  have h1: ?h1 and h3: ?h3
    by (simp_all add: model_defs example_defs)
  have h2: ?h2 and h4: ?h4 and h5: ?h5
    by (simp_all add: model_defs example_defs)
  note give_up = sendFailed_policy [OF h1, THEN conjunct2, THEN conjunct2, THEN conjunct2,
      THEN conjunct1, THEN mp, OF TrueI, THEN conjunct2, THEN conjunct2, THEN conjunct1,
      THEN mp, OF h2, THEN conjunct1]
  note retry = sendFailed_policy [OF h3, THEN conjunct2, THEN conjunct2, THEN conjunct2,
      THEN conjunct2, THEN mp, THEN conjunct2, THEN conjunct1, THEN mp, THEN conjunct2,
      THEN conjunct1]
  have c1: ?c1
    by (rule give_up)
  have c2: ?c2
    by (rule retry) (simp, intro conjI h4 h5)
  from h1 h2 c1 h3 h4 h5 c2 show ?thesis by (intro conjI)
qed

text \<open>
  C1 as stated fails when a Store call returns an error. With a failing \<^verbatim>\<open>Remove\<close> the
  policy gives up (3 exceeds \<^verbatim>\<open>MaxRetries = 2\<close>) and the event is still in the Store
  after the caller's removal; with a failing \<^verbatim>\<open>Update\<close> the policy does not give up and
  the updated event is not in the Store.
\<close>

theorem sendFailed_policy_counterexample:
  "sendFailed (remove_failing (answering (Response 500, None))) 0 (stored 0 2) None
       (client_with opts_example [stored 0 2]) =
     ((True, None), attempted_at 7 (stored 0 2), client_with opts_example [stored 0 2]) \<and>
   identity (stored 0 2) \<in>
     set (ids (store (remove_if (remove_failing (answering (Response 500, None))) 0 True
                        (attempted_at 7 (stored 0 2)) (client_with opts_example [stored 0 2])))) \<and>
   sendFailed (update_failing (answering (Response 500, None))) 0 (stored 0 0) None
       (client_with opts_example [stored 0 0]) =
     ((False, Some UpdateFailed), attempted_at 7 (stored 0 0), client_with opts_example [stored 0 0]) \<and>
   attempted_at 7 (stored 0 0) \<notin> set (entries (store (client_with opts_example [stored 0 0])))"
  by (simp add: model_defs example_defs remove_failing_def update_failing_def)

text \<open>
  C5. When the transport fails without a response object, \<^verbatim>\<open>Post\<close> returns a \<^verbatim>\<open>nil\<close>
  response next to the error. \<^verbatim>\<open>send\<close> reads the status code of that response before
  it looks at the error, so it panics instead of returning an error.
\<close>

theorem send_nil_response_panics:
  "send (\<lambda>body. (NilResponse, Some TransportFailure)) e = Inl NilPointerDereference"
  by (simp add: send_def)

text \<open>
  C6. In strict mode an event that fails validation is dropped when it is dequeued: the
  iteration changes nothing but the queue, so the Store, with its count and its entries,
  is as before and no request is posted for the event, and the loop goes on with the
  rest of the schedule.
\<close>

theorem strict_invalid_dropped:
  assumes "Strict (options t)" and "q t = e # rest" and "\<not> valid e"
  shows "run_iter w Recv t = Inr (True, t\<lparr>q := rest\<rparr>) \<and>
         run ((w, Recv) # sched) t = run sched (t\<lparr>q := rest\<rparr>)"
  using assms by simp

theorem strict_invalid_dropped_witness:
  "Strict (options ((client_with opts_example [])\<lparr>q := [event_example False]\<rparr>)) \<and>
   \<not> valid (event_example False) \<and>
   run_iter (answering (Response 200, None)) Recv
      ((client_with opts_example [])\<lparr>q := [event_example False]\<rparr>) =
     Inr (True, client_with opts_example [])"
proof -
  have h1: "Strict (options ((client_with opts_example [])\<lparr>q := [event_example False]\<rparr>))"
    by (simp add: example_defs event_example_def)
  have h2: "q ((client_with opts_example [])\<lparr>q := [event_example False]\<rparr>) = event_example False # []"
    by simp
  have h3: "\<not> valid (event_example False)"
    by (simp add: example_defs event_example_def)
  have e: "(client_with opts_example [])\<lparr>q := [event_example False]\<rparr>\<lparr>q := []\<rparr> = client_with opts_example []"
    by (simp add: client_with_def)
  from strict_invalid_dropped [OF h1 h2 h3, of "answering (Response 200, None)" "[]"]
  have "run_iter (answering (Response 200, None)) Recv
      ((client_with opts_example [])\<lparr>q := [event_example False]\<rparr>) =
     Inr (True, client_with opts_example [])"
    unfolding e by (rule conjunct1)
  with h1 h3 show ?thesis by (intro conjI)
qed

text \<open>
  C10. \<^verbatim>\<open>Close\<close> is not idempotent: after a call of \<^verbatim>\<open>Close\<close> that returned, any
  further call of \<^verbatim>\<open>Close\<close> on the same client panics, because it closes the channel
  \<^verbatim>\<open>cl\<close> a second time.
\<close>

theorem Close_twice_panics:
  assumes "Close w t = Inr t'"
  shows "Close w' t' = Inl CloseOfClosedChannel"
proof -
  from assms have f: "Flush w (t\<lparr>cl := True\<rparr>) = Inr t'"
    by (simp add: Close_def split: if_splits)
  from Flush_frame [OF f] have "cl t'"
    by (simp add: frame_def)
  then show ?thesis by (simp add: Close_def)
qed

theorem Close_twice_panics_witness:
  "Close (answering (Response 200, None)) (client_with opts_example []) =
     Inr ((client_with opts_example [])\<lparr>cl := True\<rparr>) \<and>
   Close (answering (Response 200, None)) ((client_with opts_example [])\<lparr>cl := True\<rparr>) =
     Inl CloseOfClosedChannel"
proof -
  have h: "Close (answering (Response 200, None)) (client_with opts_example []) =
     Inr ((client_with opts_example [])\<lparr>cl := True\<rparr>)"
    by (simp add: model_defs example_defs)
  from h Close_twice_panics [OF h] show ?thesis by (intro conjI)
qed

text \<open>
  C7. A failing Store call is handled where it happens. When \<^verbatim>\<open>Set\<close> fails for a newly
  dequeued event, the iteration changes nothing but the queue: the event is dropped and
  nothing is added to the Store. When \<^verbatim>\<open>Update\<close> fails in the retry policy,
  \<^verbatim>\<open>sendFailed\<close> returns \<^verbatim>\<open>rm = false\<close> with an error and leaves the client as it was;
  and after the whole flush the entry is still in the Store, as it was before the flush.
\<close>

theorem store_failure_handled:
  "(set_fails w \<and> q t = e # rest \<and> (Strict (options t) \<longrightarrow> valid e)
      \<longrightarrow> run_iter w Recv t = Inr (True, t\<lparr>q := rest\<rparr>)) \<and>
   (\<not> retry_exhausted (options t) x \<and> update_fails w k
      \<longrightarrow> sendFailed w k x se t = ((False, Some UpdateFailed), attempted_at (now w k) x, t)) \<and>
   (emit w t = Inr ((n, r), t') \<and> \<not> getall_fails w \<and> distinct (ids (store t)) \<and>
    j < length (entries (store t)) \<and> j \<notin> set (delivered w t) \<and>
    \<not> retry_exhausted (options t) (entries (store t) ! j) \<and> update_fails w j
      \<longrightarrow> entries (store t) ! j \<in> set (entries (store t')))"
proof (intro conjI impI)
  assume "set_fails w \<and> q t = e # rest \<and> (Strict (options t) \<longrightarrow> valid e)"
  then show "run_iter w Recv t = Inr (True, t\<lparr>q := rest\<rparr>)"
    using run_iter_set_fails [of w t e rest] by blast
next
  assume "\<not> retry_exhausted (options t) x \<and> update_fails w k"
  then show "sendFailed w k x se t = ((False, Some UpdateFailed), attempted_at (now w k) x, t)"
    using sendFailed_update_fails [of t x w k se] by blast
next
  assume a: "emit w t = Inr ((n, r), t') \<and> \<not> getall_fails w \<and> distinct (ids (store t)) \<and>
    j < length (entries (store t)) \<and> j \<notin> set (delivered w t) \<and>
    \<not> retry_exhausted (options t) (entries (store t) ! j) \<and> update_fails w j"
  then have res: "emit w t = Inr ((n, r), t')" and ga: "\<not> getall_fails w"
    and d: "distinct (ids (store t))" and j: "j < length (entries (store t))"
    by simp_all
  from emit_fate [OF res ga d j refl] a
  show "entries (store t) ! j \<in> set (entries (store t'))"
    by blast
qed

theorem store_failure_handled_witness:
  "set_fails (set_failing (update_failing (answering (Response 500, None)))) \<and>
   update_fails (set_failing (update_failing (answering (Response 500, None)))) 0 \<and>
   \<not> retry_exhausted (options ((client_with opts_example [stored 0 0])\<lparr>q := [event_example True]\<rparr>))
       (stored 0 0) \<and>
   0 \<notin> set (delivered (set_failing (update_failing (answering (Response 500, None))))
               ((client_with opts_example [stored 0 0])\<lparr>q := [event_example True]\<rparr>)) \<and>
   run_iter (set_failing (update_failing (answering (Response 500, None)))) Recv
       ((client_with opts_example [stored 0 0])\<lparr>q := [event_example True]\<rparr>) =
     Inr (True, ((client_with opts_example [stored 0 0])\<lparr>q := [event_example True]\<rparr>)\<lparr>q := []\<rparr>) \<and>
   sendFailed (set_failing (update_failing (answering (Response 500, None)))) 0 (stored 0 0) None
       ((client_with opts_example [stored 0 0])\<lparr>q := [event_example True]\<rparr>) =
     ((False, Some UpdateFailed),
      attempted_at (now (set_failing (update_failing (answering (Response 500, None)))) 0) (stored 0 0),
      (client_with opts_example [stored 0 0])\<lparr>q := [event_example True]\<rparr>) \<and>
   entries (store ((client_with opts_example [stored 0 0])\<lparr>q := [event_example True]\<rparr>)) ! 0
     \<in> set (entries (store
          ((client_with opts_example [stored 0 0])\<lparr>q := [event_example True], httpc := [[0]]\<rparr>)))"
  (is "?h1 \<and> ?h2 \<and> ?h3 \<and> ?h4 \<and> ?c1 \<and> ?c2 \<and> ?c3")
proof -
  let ?w = "set_failing (update_failing (answering (Response 500, None)))"
  let ?t = "(client_with opts_example [stored 0 0])\<lparr>q := [event_example True]\<rparr>"
  have h1: ?h1 and h2: ?h2
    by (simp_all add: example_defs set_failing_def update_failing_def event_example_def)
  have h3: ?h3
    by (simp add: model_defs example_defs set_failing_def update_failing_def event_example_def)
  have h4: ?h4
    by (simp add: model_defs example_defs set_failing_def update_failing_def event_example_def)
  have h5: "q ?t = event_example True # []" and h6: "Strict (options ?t) \<longrightarrow> valid (event_example True)"
    by (simp_all add: example_defs set_failing_def update_failing_def event_example_def)
  have h7: "emit ?w ?t = Inr ((0, None), ?t\<lparr>httpc := [[0]]\<rparr>)"
    by (simp add: model_defs example_defs set_failing_def update_failing_def event_example_def)
  have h8: "\<not> getall_fails ?w" and h9: "distinct (ids (store ?t))"
    and h10: "0 < length (entries (store ?t))"
    by (simp_all add: model_defs example_defs set_failing_def update_failing_def event_example_def)
  have h11: "\<not> retry_exhausted (options ?t) (entries (store ?t) ! 0)"
    using h3 by (simp add: example_defs set_failing_def update_failing_def event_example_def)
  note inst = store_failure_handled [of ?w ?t "event_example True" "[]" "stored 0 0" 0 None
      0 None "?t\<lparr>httpc := [[0]]\<rparr>" 0]
  have c1: ?c1
    by (rule inst [THEN conjunct1, THEN mp]) (intro conjI h1 h5 h6)
  have c2: ?c2
    by (rule inst [THEN conjunct2, THEN conjunct1, THEN mp]) (intro conjI h3 h2)
  have c3: ?c3
    by (rule inst [THEN conjunct2, THEN conjunct2, THEN mp]) (intro conjI h7 h8 h9 h10 h4 h11 h2)
  from h1 h2 h3 h4 c1 c2 c3 show ?thesis by (intro conjI)
qed

text \<open>
  C2, amended. With a positive \<^verbatim>\<open>MaxRetries\<close>, the attempts count of every Store entry
  stays at most \<^verbatim>\<open>MaxRetries\<close>: along the loop of \<^verbatim>\<open>run\<close>, whatever the schedule, and
  across \<^verbatim>\<open>Flush\<close> and \<^verbatim>\<open>Close\<close>. An event of the snapshot whose delivery is not
  confirmed and whose incremented attempts count exceeds \<^verbatim>\<open>MaxRetries\<close> is absent from
  the Store right after its turn in the loop of the flush (in either mode), and after
  the flush, provided the \<^verbatim>\<open>Remove\<close> call for it does not fail.
\<close>

theorem retry_bound:
  assumes "0 <s MaxRetries (options t)" and "bounded t"
  shows "(\<forall>sched t'. run sched t = Inr t' \<longrightarrow> bounded t') \<and>
         (\<forall>w t'. Flush w t = Inr t' \<longrightarrow> bounded t') \<and>
         (\<forall>w t'. Close w t = Inr t' \<longrightarrow> bounded t') \<and>
         (\<forall>w k e i i' t'.
             emit_event w k e (i, t) = Inr (i', t') \<and> \<not> accepted (post w k (Event e)) \<and>
             retry_exhausted (options t) e \<and> \<not> remove_fails w k
             \<longrightarrow> identity e \<notin> set (ids (store t'))) \<and>
         (\<forall>w k e i.
             retry_exhausted (options t) e \<and> \<not> remove_fails w k
             \<longrightarrow> identity e \<notin> set (ids (store (snd (bulk_event w True k e (i, t)))))) \<and>
         (\<forall>w n r t' j.
             emit w t = Inr ((n, r), t') \<and> \<not> getall_fails w \<and> j < length (entries (store t)) \<and>
             j \<notin> set (delivered w t) \<and> retry_exhausted (options t) (entries (store t) ! j) \<and>
             \<not> remove_fails w j
             \<longrightarrow> identity (entries (store t) ! j) \<notin> set (ids (store t')))"
proof (intro conjI allI impI)
  fix sched t' assume "run sched t = Inr t'"
  from run_bounded [OF this assms] show "bounded t'" .
next
  fix w t' assume "Flush w t = Inr t'"
  from frame_bounded [OF Flush_frame [OF this] assms] show "bounded t'" .
next
  fix w t' assume "Close w t = Inr t'"
  from frame_bounded [OF Close_frame [OF this]] assms show "bounded t'"
    by (simp add: bounded_def)
next
  fix w k e i i' t'
  assume "emit_event w k e (i, t) = Inr (i', t') \<and> \<not> accepted (post w k (Event e)) \<and>
             retry_exhausted (options t) e \<and> \<not> remove_fails w k"
  with emit_event_removed [of w k e i t i' t']
  show "identity e \<notin> set (ids (store t'))" by blast
next
  fix w :: world and k e i
  assume "retry_exhausted (options t) e \<and> \<not> remove_fails w k"
  with bulk_event_removed [of True t e w k i]
  show "identity e \<notin> set (ids (store (snd (bulk_event w True k e (i, t)))))" by blast
next
  fix w n r t' j
  assume a: "emit w t = Inr ((n, r), t') \<and> \<not> getall_fails w \<and> j < length (entries (store t)) \<and>
             j \<notin> set (delivered w t) \<and> retry_exhausted (options t) (entries (store t) ! j) \<and>
             \<not> remove_fails w j"
  then have "j \<in> set (delivered w t) \<or> retry_exhausted (options t) (entries (store t) ! j)"
    by simp
  with a emit_removed [of w t n r t' j]
  show "identity (entries (store t) ! j) \<notin> set (ids (store t'))"
    by blast
qed

theorem retry_bound_witness:
  "0 <s MaxRetries (options (client_with opts_example [stored 0 2])) \<and>
   bounded (client_with opts_example [stored 0 2]) \<and>
   run [(answering (Response 500, None), Tick)] (client_with opts_example [stored 0 2]) =
     Inr ((client_with opts_example [])\<lparr>httpc := [[0]], store := \<lparr>entries = [], next_id = 1\<rparr>\<rparr>) \<and>
   0 \<notin> set (delivered (answering (Response 500, None)) (client_with opts_example [stored 0 2])) \<and>
   retry_exhausted (options (client_with opts_example [stored 0 2]))
     (entries (store (client_with opts_example [stored 0 2])) ! 0) \<and>
   bounded ((client_with opts_example [])\<lparr>httpc := [[0]], store := \<lparr>entries = [], next_id = 1\<rparr>\<rparr>) \<and>
   identity (entries (store (client_with opts_example [stored 0 2])) ! 0) \<notin>
     set (ids (store ((client_with opts_example [])\<lparr>httpc := [[0]], store := \<lparr>entries = [], next_id = 1\<rparr>\<rparr>)))"
  (is "?h1 \<and> ?h2 \<and> ?h3 \<and> ?h4 \<and> ?h5 \<and> ?c1 \<and> ?c2")
proof -
  let ?w = "answering (Response 500, None)"
  let ?t = "client_with opts_example [stored 0 2]"
  let ?t' = "(client_with opts_example [])\<lparr>httpc := [[0]], store := \<lparr>entries = [], next_id = 1\<rparr>\<rparr>"
  have h1: ?h1 and h2: ?h2 and h4: ?h4 and h5: ?h5
    by (simp_all add: model_defs example_defs bounded_def)
  have h3: ?h3
    by (simp add: model_defs example_defs bounded_def)
  have h6: "emit ?w ?t = Inr ((0, None), ?t')"
    by (simp add: model_defs example_defs bounded_def)
  have h7: "\<not> getall_fails ?w" and h8: "0 < length (entries (store ?t))"
    and h9: "\<not> remove_fails ?w 0"
    by (simp_all add: example_defs bounded_def)
  note inst = retry_bound [OF h1 h2]
  have c1: ?c1
    by (rule inst [THEN conjunct1, rule_format, of "[(?w, Tick)]" ?t']) (rule h3)
  have c2: ?c2
    by (rule inst [THEN conjunct2, THEN conjunct2, THEN conjunct2, THEN conjunct2,
          THEN conjunct2, rule_format, of ?w 0 None ?t' 0])
       (intro conjI h6 h7 h8 h4 h5 h9)
  from h1 h2 h3 h4 h5 c1 c2 show ?thesis by (intro conjI)
qed

text \<open>
  C2 as stated fails when \<^verbatim>\<open>Remove\<close> returns an error, which \<^verbatim>\<open>emit\<close> only logs: the
  send fails, the incremented count 3 exceeds \<^verbatim>\<open>MaxRetries = 2\<close>, and the event is still
  in the Store after the flush.
\<close>

theorem retry_bound_counterexample:
  "0 <s MaxRetries (options (client_with opts_example [stored 0 2])) \<and>
   bounded (client_with opts_example [stored 0 2]) \<and>
   \<not> accepted (post (remove_failing (answering (Response 500, None))) 0 (Event (stored 0 2))) \<and>
   MaxRetries (options (client_with opts_example [stored 0 2])) <s Attempts (stored 0 2) + 1 \<and>
   emit (remove_failing (answering (Response 500, None))) (client_with opts_example [stored 0 2]) =
     Inr ((0, None), (client_with opts_example [stored 0 2])\<lparr>httpc := [[0]]\<rparr>) \<and>
   identity (stored 0 2) \<in>
     set (ids (store ((client_with opts_example [stored 0 2])\<lparr>httpc := [[0]]\<rparr>)))"
  by (simp add: model_defs example_defs bounded_def remove_failing_def)

text \<open>
  C3, amended. A bulk flush that returns has posted exactly one request, whose body joins
  the payloads of the whole snapshot with newlines, and treats all events of the snapshot
  alike. If the request is accepted, every event is counted as delivered and is absent
  from the Store afterwards unless its \<^verbatim>\<open>Remove\<close> fails. If it is not accepted, nothing
  is counted and every event goes through the retry policy once: an event whose
  incremented attempts count exceeds a positive \<^verbatim>\<open>MaxRetries\<close> is absent afterwards
  unless its \<^verbatim>\<open>Remove\<close> fails; any other event, unless its \<^verbatim>\<open>Update\<close> fails, is held
  by the Store with exactly one more attempt. So events of one failed batch are dropped
  on different cycles.
\<close>

theorem bulk_all_or_nothing:
  assumes "Bulk (options t)" and "entries (store t) \<noteq> []" and "\<not> getall_fails w"
    and "distinct (ids (store t))" and "emit w t = Inr ((n, r), t')"
  shows "httpc t' = httpc t @ [bytes_Join (map Event (entries (store t))) [10]] \<and>
    (accepted (post w 0 (bytes_Join (map Event (entries (store t))) [10])) \<longrightarrow>
       n = length (entries (store t)) \<and>
       (\<forall>j < length (entries (store t)).
           \<not> remove_fails w j \<longrightarrow> identity (entries (store t) ! j) \<notin> set (ids (store t')))) \<and>
    (\<not> accepted (post w 0 (bytes_Join (map Event (entries (store t))) [10])) \<longrightarrow>
       n = 0 \<and>
       (\<forall>j < length (entries (store t)).
           (retry_exhausted (options t) (entries (store t) ! j) \<and> \<not> remove_fails w j \<longrightarrow>
              identity (entries (store t) ! j) \<notin> set (ids (store t'))) \<and>
           (\<not> retry_exhausted (options t) (entries (store t) ! j) \<and> \<not> update_fails w j \<longrightarrow>
              attempted_at (now w j) (entries (store t) ! j) \<in> set (entries (store t')) \<and>
              (\<forall>x \<in> set (entries (store t')).
                  identity x = identity (entries (store t) ! j) \<longrightarrow>
                  x = attempted_at (now w j) (entries (store t) ! j)))))"
proof -
  let ?body = "bytes_Join (map Event (entries (store t))) [10]"
  note loop = emit_bulk_Inr [OF assms(2,3,1,5), THEN conjunct1]
  have h: "httpc t' = httpc t @ [?body]"
    using bulk_loop_httpc [of w "\<not> accepted (post w 0 ?body)" 0 "entries (store t)" 0
        "t\<lparr>httpc := httpc t @ [?body]\<rparr>"] loop by simp
  have n: "n = (if accepted (post w 0 ?body) then length (entries (store t)) else 0)"
    using bulk_loop_fst [of w "\<not> accepted (post w 0 ?body)" 0 "entries (store t)" 0
        "t\<lparr>httpc := httpc t @ [?body]\<rparr>"] loop by simp
  have del: "j \<in> set (delivered w t) \<longleftrightarrow> accepted (post w 0 ?body)"
    if "j < length (entries (store t))" for j
    using delivered_iff [OF assms(3) that] assms(1) by simp
  note fate = emit_fate [OF assms(5,3,4) _ refl]
  have ok: "n = length (entries (store t)) \<and>
       (\<forall>j < length (entries (store t)).
           \<not> remove_fails w j \<longrightarrow> identity (entries (store t) ! j) \<notin> set (ids (store t')))"
    if a: "accepted (post w 0 ?body)"
  proof (intro conjI allI impI)
    show "n = length (entries (store t))" using n a by simp
  next
    fix j assume j: "j < length (entries (store t))" and "\<not> remove_fails w j"
    with fate [OF j] del [OF j] a
    show "identity (entries (store t) ! j) \<notin> set (ids (store t'))" by blast
  qed
  have ko: "n = 0 \<and>
       (\<forall>j < length (entries (store t)).
           (retry_exhausted (options t) (entries (store t) ! j) \<and> \<not> remove_fails w j \<longrightarrow>
              identity (entries (store t) ! j) \<notin> set (ids (store t'))) \<and>
           (\<not> retry_exhausted (options t) (entries (store t) ! j) \<and> \<not> update_fails w j \<longrightarrow>
              attempted_at (now w j) (entries (store t) ! j) \<in> set (entries (store t')) \<and>
              (\<forall>x \<in> set (entries (store t')).
                  identity x = identity (entries (store t) ! j) \<longrightarrow>
                  x = attempted_at (now w j) (entries (store t) ! j))))"
    if a: "\<not> accepted (post w 0 ?body)"
  proof (intro conjI allI impI)
    show "n = 0" using n a by simp
  next
    fix j assume j: "j < length (entries (store t))"
      and "retry_exhausted (options t) (entries (store t) ! j) \<and> \<not> remove_fails w j"
    with fate [OF j]
    show "identity (entries (store t) ! j) \<notin> set (ids (store t'))" by blast
  next
    fix j assume j: "j < length (entries (store t))"
      and b: "\<not> retry_exhausted (options t) (entries (store t) ! j) \<and> \<not> update_fails w j"
    from del [OF j] a have "j \<notin> set (delivered w t)" by simp
    with fate [OF j] b
    show "attempted_at (now w j) (entries (store t) ! j) \<in> set (entries (store t'))"
      and "\<forall>x \<in> set (entries (store t')).
                  identity x = identity (entries (store t) ! j) \<longrightarrow>
                  x = attempted_at (now w j) (entries (store t) ! j)"
      by blast+
  qed
  from h ok ko show ?thesis by blast
qed

theorem bulk_all_or_nothing_witness:
  "Bulk (options bulk_example) \<and> entries (store bulk_example) \<noteq> [] \<and>
   distinct (ids (store bulk_example)) \<and>
   \<not> accepted (post (answering (Response 500, None)) 0
                (bytes_Join (map Event (entries (store bulk_example))) [10])) \<and>
   retry_exhausted (options bulk_example) (entries (store bulk_example) ! 0) \<and>
   \<not> retry_exhausted (options bulk_example) (entries (store bulk_example) ! 1) \<and>
   emit (answering (Response 500, None)) bulk_example =
     Inr ((0, None),
          bulk_example\<lparr>httpc := [[0, 10, 1]],
            store := \<lparr>entries = [attempted_at 7 (stored 1 0)], next_id = 2\<rparr>\<rparr>) \<and>
   identity (entries (store bulk_example) ! 0) \<notin>
     set (ids (store (bulk_example\<lparr>httpc := [[0, 10, 1]],
            store := \<lparr>entries = [attempted_at 7 (stored 1 0)], next_id = 2\<rparr>\<rparr>))) \<and>
   attempted_at (now (answering (Response 500, None)) 1) (entries (store bulk_example) ! 1) \<in>
     set (entries (store (bulk_example\<lparr>httpc := [[0, 10, 1]],
            store := \<lparr>entries = [attempted_at 7 (stored 1 0)], next_id = 2\<rparr>\<rparr>)))"
  (is "?h1 \<and> ?h2 \<and> ?h3 \<and> ?h4 \<and> ?h5 \<and> ?h6 \<and> ?h7 \<and> ?c1 \<and> ?c2")
proof -
  let ?w = "answering (Response 500, None)"
  have h1: ?h1 and h2: ?h2 and h3: ?h3 and h4: ?h4 and h5: ?h5 and h6: ?h6
    by (simp_all add: bulk_example_def model_defs example_defs)
  have h7: ?h7
    by (simp add: bulk_example_def model_defs example_defs)
  have h8: "\<not> getall_fails ?w" and h9: "\<not> remove_fails ?w 0" and h10: "\<not> update_fails ?w 1"
    and h11: "0 < length (entries (store bulk_example))"
    and h12: "1 < length (entries (store bulk_example))"
    by (simp_all add: bulk_example_def example_defs)
  note inst = bulk_all_or_nothing [OF h1 h2 h8 h3 h7, THEN conjunct2, THEN conjunct2, THEN mp,
      OF h4, THEN conjunct2, rule_format]
  have c1: ?c1
    by (rule inst [OF h11, THEN conjunct1, rule_format]) (intro conjI h5 h9)
  have c2: ?c2
    by (rule inst [OF h12, THEN conjunct2, rule_format, THEN conjunct1]) (intro conjI h6 h10)
  from h1 h2 h3 h4 h5 h6 h7 c1 c2 show ?thesis by (intro conjI)
qed

text \<open>
  C3 as stated fails when \<^verbatim>\<open>Remove\<close> returns an error: the request is accepted, both
  events are counted, and both are still in the Store.
\<close>

theorem bulk_all_or_nothing_counterexample:
  "Bulk (options bulk_example) \<and>
   accepted (post (remove_failing (answering (Response 200, None))) 0
              (bytes_Join (map Event (entries (store bulk_example))) [10])) \<and>
   emit (remove_failing (answering (Response 200, None))) bulk_example =
     Inr ((2, None), bulk_example\<lparr>httpc := [[0, 10, 1]]\<rparr>) \<and>
   identity (entries (store bulk_example) ! 0) \<in>
     set (ids (store (bulk_example\<lparr>httpc := [[0, 10, 1]]\<rparr>)))"
  by (simp add: bulk_example_def model_defs example_defs remove_failing_def)

text \<open>
  C4, amended. What \<^verbatim>\<open>emit\<close> returns is the number of events of the snapshot whose
  delivery was confirmed during the flush, in both modes. Each of them is absent from
  the Store afterwards unless the \<^verbatim>\<open>Remove\<close> call for it fails; so when no \<^verbatim>\<open>Remove\<close>
  fails, the count is the number of events removed by confirmed delivery.
\<close>

theorem flush_count:
  assumes "emit w t = Inr ((n, r), t')"
  shows "n = length (delivered w t) \<and>
         (\<forall>j \<in> set (delivered w t).
             \<not> remove_fails w j \<longrightarrow> identity (entries (store t) ! j) \<notin> set (ids (store t'))) \<and>
         ((\<forall>j < length (entries (store t)). \<not> remove_fails w j)
             \<longrightarrow> n = length (removed_by_delivery w t t'))"
proof -
  have n: "n = length (delivered w t)"
    using assms by (rule emit_delivered_count)
  have rm: "identity (entries (store t) ! j) \<notin> set (ids (store t'))"
    if "j \<in> set (delivered w t)" and "\<not> remove_fails w j" for j
    using emit_removed [OF assms, of j] delivered_bound [OF that(1)] that by blast
  have "removed_by_delivery w t t' = delivered w t"
    if "\<forall>j < length (entries (store t)). \<not> remove_fails w j"
    unfolding removed_by_delivery_def
    using rm delivered_bound that by (intro filter_True) blast
  with n rm show ?thesis by auto
qed

theorem flush_count_witness:
  "emit (answering (Response 200, None)) (client_with opts_example [stored 0 0, stored 1 1]) =
     Inr ((2, None),
          (client_with opts_example [])\<lparr>httpc := [[0], [1]], store := \<lparr>entries = [], next_id = 2\<rparr>\<rparr>) \<and>
   \<not> remove_fails (answering (Response 200, None)) 0 \<and>
   \<not> remove_fails (answering (Response 200, None)) 1 \<and>
   length (removed_by_delivery (answering (Response 200, None))
             (client_with opts_example [stored 0 0, stored 1 1])
             ((client_with opts_example [])\<lparr>httpc := [[0], [1]],
                 store := \<lparr>entries = [], next_id = 2\<rparr>\<rparr>)) = 2"
  (is "?h1 \<and> ?h2 \<and> ?h3 \<and> ?c")
proof -
  have h1: ?h1
    by (simp add: model_defs example_defs)
  have h2: ?h2 and h3: ?h3
    by (simp_all add: example_defs)
  have all: "\<forall>j < length (entries (store (client_with opts_example [stored 0 0, stored 1 1]))).
       \<not> remove_fails (answering (Response 200, None)) j"
    by (simp add: example_defs)
  from flush_count [OF h1, THEN conjunct2, THEN conjunct2, THEN mp, OF all]
  have ?c by (rule sym)
  with h1 h2 h3 show ?thesis by (intro conjI)
qed

text \<open>
  C4 as stated fails when \<^verbatim>\<open>Remove\<close> returns an error: the counter is incremented when
  the send succeeds, before \<^verbatim>\<open>Remove\<close> is called. Here one delivery is confirmed and
  counted, and no event has left the Store.
\<close>

theorem flush_count_counterexample:
  "emit (remove_failing (answering (Response 200, None))) (client_with opts_example [stored 0 0]) =
     Inr ((1, None), (client_with opts_example [stored 0 0])\<lparr>httpc := [[0]]\<rparr>) \<and>
   length (removed_by_delivery (remove_failing (answering (Response 200, None)))
             (client_with opts_example [stored 0 0])
             ((client_with opts_example [stored 0 0])\<lparr>httpc := [[0]]\<rparr>)) = 0"
  by (simp add: removed_by_delivery_def model_defs example_defs remove_failing_def)




end
